theory Spec2Isabelle
  imports Complex_Main "HOL-Library.Word" "HOL-Library.Log_Nat"
begin

section \<open>The random engine of mshadow (tensor_random.h)\<close>

text \<open>
  The development embeds \<^verbatim>\<open>Random<cpu>\<close> as built without MKL (the stdlib branch of every
  \<^verbatim>\<open>#if MSHADOW_USE_MKL\<close>), and \<^verbatim>\<open>GetTemp\<close> of \<^verbatim>\<open>Random<gpu>\<close>.

  \<^item> \<^verbatim>\<open>index_t\<close> is declared in tensor.h; it is an unsigned machine integer, modelled as
    \<open>'w word\<close> for an arbitrary width \<open>'w\<close> (the width is a parameter of every theorem).
  \<^item> \<^verbatim>\<open>real_t\<close> is declared in tensor.h; it is \<^verbatim>\<open>float\<close> in the single-precision build,
    the one the specification describes. Its arithmetic is modelled twice. The sampling
    functions are first embedded over the real numbers, every operation exact: the
    theorems on the cells that are written, on the draws that are consumed, on the
    memory that is left alone and on the exit of the rejection loop are proved of this
    embedding. \<^verbatim>\<open>RandNext\<close>, \<^verbatim>\<open>RandNext2\<close> and \<^verbatim>\<open>SampleUniform\<close> are then embedded a
    second time, the result of every operation rounded to its floating-point type (the
    definitions whose names end in \<open>_binary32\<close>): the theorems on the range of the
    values are proved of that embedding.
  \<^item> Device memory is a flat store of scalars addressed by element index; a pointer
    \<^verbatim>\<open>real_t*\<close> is such an index. The store has no bounds: a write past the end of an
    allocation lands in the cell behind it.
  \<^item> \<^verbatim>\<open>rand()\<close> and \<^verbatim>\<open>srand()\<close> belong to the C library. Their state is global to
    the process. It is modelled by the sequence of values that the coming calls of
    \<^verbatim>\<open>rand()\<close> return; \<^verbatim>\<open>RAND_MAX\<close> and the sequence that \<^verbatim>\<open>srand(seed)\<close> installs
    are parameters.
\<close>

subsection \<open>Shapes, tensors, memory\<close>

type_synonym real_t = real
type_synonym addr = nat
type_synonym rand_state = "nat \<Rightarrow> int"

text \<open>
  \<^verbatim>\<open>Shape<dim>\<close>: \<open>shape0\<close> is \<^verbatim>\<open>shape[0]\<close>, the extent of the leading (innermost,
  contiguous) axis, \<open>rest\<close> holds \<^verbatim>\<open>shape[1]\<close> ... \<^verbatim>\<open>shape[dim-1]\<close>, and \<open>stride\<close> (the
  member \<^verbatim>\<open>stride_\<close>) is the distance in memory between two consecutive inner rows.
\<close>

record (overloaded) 'w Shape =
  shape0 :: "'w word"
  rest :: "'w word list"
  stride :: "'w word"

record (overloaded) 'w Tensor =
  dptr :: addr
  shape :: "'w Shape"

text \<open>\<^verbatim>\<open>Tensor<cpu,2>\<close>, the result of \<^verbatim>\<open>FlatTo2D\<close>: \<open>inner\<close> is \<^verbatim>\<open>mat.shape[0]\<close> and \<open>outer\<close>
  is \<^verbatim>\<open>mat.shape[1]\<close>.\<close>

record (overloaded) 'w Mat =
  mptr :: addr
  inner :: "'w word"
  outer :: "'w word"
  mstride :: "'w word"

text \<open>The state of the process: device memory and the C library's generator.\<close>

record process =
  memory :: "addr \<Rightarrow> real_t"
  rng :: rand_state

text \<open>The members of \<^verbatim>\<open>Random<cpu>\<close> and of \<^verbatim>\<open>Random<gpu>\<close> that the model needs:
  \<open>buffer\<close> is the member \<^verbatim>\<open>buffer_\<close>, the scratch buffer, a tensor of one axis.\<close>

record (overloaded) 'w Random =
  buffer :: "'w Tensor"

text \<open>Modelled from the spec: \<^verbatim>\<open>utils::Assert\<close> is defined in utils.h. The spec calls it a
  fatal assertion: where the condition is false the process ends with the message. The
  model returns the error in place of a result.\<close>

datatype error = AssertError string

text \<open>Modelled from the spec: \<^verbatim>\<open>Shape::MSize\<close> is defined in tensor.h. The spec calls it
  "the total padded element count required by shape": the stride times the extents of
  all axes but the leading one.\<close>

definition MSize :: "'w::len Shape \<Rightarrow> nat" where
  "MSize s = unat (stride s) * prod_list (map unat (rest s))"

text \<open>Modelled from the spec: \<^verbatim>\<open>Tensor::FlatTo2D\<close> is defined in tensor.h. The spec: flatten
  an N-D view to a 2-D view whose inner axis is the leading axis of the tensor and whose
  outer axis runs over all the others; base pointer and stride are kept. The outer
  extent is an \<^verbatim>\<open>index_t\<close>.\<close>

definition FlatTo2D :: "'w::len Tensor \<Rightarrow> 'w Mat" where
  "FlatTo2D t = \<lparr>mptr = dptr t, inner = shape0 (shape t),
     outer = prod_list (rest (shape t)), mstride = stride (shape t)\<rparr>"

text \<open>Modelled from the spec: \<^verbatim>\<open>mat[i][j]\<close> (the indexing operators of tensor.h) is the
  scalar \<open>j\<close> cells into row \<open>i\<close>, rows being \<open>mstride\<close> cells apart.\<close>

definition cell :: "'w::len Mat \<Rightarrow> nat \<Rightarrow> nat \<Rightarrow> addr" where
  "cell mat i j = mptr mat + i * unat (mstride mat) + j"

definition store :: "addr \<Rightarrow> real_t \<Rightarrow> process \<Rightarrow> process" where
  "store a v p = p\<lparr>memory := (memory p)(a := v)\<rparr>"

subsection \<open>The C library's generator\<close>

definition rand :: "rand_state \<Rightarrow> int \<times> rand_state" where
  "rand g = (g 0, \<lambda>n. g (Suc n))"

subsection \<open>Construction\<close>

text \<open>\<^verbatim>\<open>Random<cpu>(seed)\<close>: \<^verbatim>\<open>srand(seed)\<close> replaces the generator state of the process by
  the sequence \<open>srand_seq seed\<close>; then \<^verbatim>\<open>buffer_.shape[0] = kRandBufferSize\<close>, and \<^verbatim>\<open>AllocSpace\<close>
  (tensor.h) gives the buffer its memory: the address \<open>base\<close> and the stride \<open>pitch\<close> are
  the allocator's choice.\<close>

definition Random_cpu ::
  "(int \<Rightarrow> rand_state) \<Rightarrow> 'w::len word \<Rightarrow> addr \<Rightarrow> 'w word \<Rightarrow> int \<Rightarrow> process
     \<Rightarrow> 'w Random \<times> process" where
  "Random_cpu srand_seq kRandBufferSize base pitch seed p =
     (\<lparr>buffer = \<lparr>dptr = base,
         shape = \<lparr>shape0 = kRandBufferSize, rest = [], stride = pitch\<rparr>\<rparr>\<rparr>,
      p\<lparr>rng := srand_seq seed\<rparr>)"

subsection \<open>GetTemp\<close>

text \<open>\<^verbatim>\<open>shape.stride_ = ((shape[0] + 3) >> 2) << 2\<close>, then the assertion, then the view at
  the buffer's base.\<close>

definition GetTemp :: "'w::len Random \<Rightarrow> 'w Shape \<Rightarrow> error + 'w Tensor" where
  "GetTemp this sh =
     (let sh' = sh\<lparr>stride := push_bit 2 (drop_bit 2 (shape0 sh + 3))\<rparr>
      in if unat (shape0 (shape (buffer this))) > MSize sh'
         then Inr \<lparr>dptr = dptr (buffer this), shape = sh'\<rparr>
         else Inl (AssertError ''gaussian: random engine buffer do not have enough memory''))"

text \<open>\<^verbatim>\<open>Random<gpu>::GetTemp\<close> has the same two statements without the assertion.\<close>

definition GetTemp_gpu :: "'w::len Random \<Rightarrow> 'w Shape \<Rightarrow> error + 'w Tensor" where
  "GetTemp_gpu this sh =
     (let sh' = sh\<lparr>stride := push_bit 2 (drop_bit 2 (shape0 sh + 3))\<rparr>
      in Inr \<lparr>dptr = dptr (buffer this), shape = sh'\<rparr>)"

subsection \<open>Uniform sampling\<close>

text \<open>\<^verbatim>\<open>RandNext\<close>, the quotient taken over the real numbers. (With the rounding of \<^verbatim>\<open>float\<close>
  arithmetic it is \<open>RandNext_binary32\<close> below.)\<close>

definition RandNext :: "int \<Rightarrow> rand_state \<Rightarrow> real_t \<times> rand_state" where
  "RandNext RAND_MAX g =
     (let (r, g') = rand g in (real_of_int r / (real_of_int RAND_MAX + 1), g'))"

text \<open>The inner loop \<^verbatim>\<open>for (j = 0; j < mat.shape[0]; ++j)\<close> of row \<open>i\<close>, entered at \<open>j\<close>. The
  counters \<open>i\<close> and \<open>j\<close> of the loops stay below an extent, so they never wrap around: they
  are natural numbers in the model.\<close>

function SampleUniform_row ::
  "int \<Rightarrow> 'w::len Mat \<Rightarrow> real_t \<Rightarrow> real_t \<Rightarrow> nat \<Rightarrow> nat \<Rightarrow> process \<Rightarrow> process" where
  "SampleUniform_row RAND_MAX mat a b i j p =
     (if j < unat (inner mat)
      then let (r, g') = RandNext RAND_MAX (rng p)
           in SampleUniform_row RAND_MAX mat a b i (Suc j)
                (store (cell mat i j) (r * (b - a) + a) (p\<lparr>rng := g'\<rparr>))
      else p)"
  by pat_completeness auto
termination
  by (relation "measure (\<lambda>(RAND_MAX, mat, a, b, i, j, p). unat (inner mat) - j)") auto

declare SampleUniform_row.simps [simp del]

text \<open>The outer loop \<^verbatim>\<open>for (i = 0; i < mat.shape[1]; ++i)\<close>, entered at \<open>i\<close>.\<close>

function SampleUniform_rows ::
  "int \<Rightarrow> 'w::len Mat \<Rightarrow> real_t \<Rightarrow> real_t \<Rightarrow> nat \<Rightarrow> process \<Rightarrow> process" where
  "SampleUniform_rows RAND_MAX mat a b i p =
     (if i < unat (outer mat)
      then SampleUniform_rows RAND_MAX mat a b (Suc i) (SampleUniform_row RAND_MAX mat a b i 0 p)
      else p)"
  by pat_completeness auto
termination
  by (relation "measure (\<lambda>(RAND_MAX, mat, a, b, i, p). unat (outer mat) - i)") auto

declare SampleUniform_rows.simps [simp del]

definition SampleUniform ::
  "int \<Rightarrow> 'w::len Tensor \<Rightarrow> real_t \<Rightarrow> real_t \<Rightarrow> process \<Rightarrow> process" where
  "SampleUniform RAND_MAX dst a b p = SampleUniform_rows RAND_MAX (FlatTo2D dst) a b 0 p"

subsection \<open>Gaussian sampling\<close>

text \<open>\<^verbatim>\<open>RandNext2\<close>, the quotient taken over the real numbers. (With the rounding of \<^verbatim>\<open>float\<close>
  and \<^verbatim>\<open>double\<close> arithmetic it is \<open>RandNext2_binary32\<close> below.)\<close>

definition RandNext2 :: "int \<Rightarrow> rand_state \<Rightarrow> real_t \<times> rand_state" where
  "RandNext2 RAND_MAX g =
     (let (r, g') = rand g in ((real_of_int r + 1) / (real_of_int RAND_MAX + 2), g'))"

text \<open>The \<^verbatim>\<open>do { ... } while (s >= 1.0f || s == 0.0f)\<close> loop of \<^verbatim>\<open>SampleNormal2D\<close>. It
  returns \<open>x\<close>, \<open>y\<close> and \<open>s\<close> as they are when the loop is left, and \<open>None\<close> when it is
  never left.\<close>

partial_function (option) SampleNormal2D_loop ::
  "int \<Rightarrow> rand_state \<Rightarrow> ((real_t \<times> real_t \<times> real_t) \<times> rand_state) option" where
  "SampleNormal2D_loop RAND_MAX g =
     (let (u, g1) = RandNext2 RAND_MAX g;
          x = 2 * u - 1;
          (v, g2) = RandNext2 RAND_MAX g1;
          y = 2 * v - 1;
          s = x * x + y * y
      in if s \<ge> 1 \<or> s = 0 then SampleNormal2D_loop RAND_MAX g2 else Some ((x, y, s), g2))"

definition SampleNormal2D :: "int \<Rightarrow> rand_state \<Rightarrow> ((real_t \<times> real_t) \<times> rand_state) option" where
  "SampleNormal2D RAND_MAX g =
     (case SampleNormal2D_loop RAND_MAX g of
        None \<Rightarrow> None
      | Some ((x, y, s), g') \<Rightarrow>
          (let t = sqrt (- 2 * ln s / s) in Some ((x * t, y * t), g')))"

text \<open>The inner loop of \<^verbatim>\<open>SampleGaussian\<close> for row \<open>i\<close>, entered at \<open>j\<close> with the locals
  \<open>g1\<close> and \<open>g2\<close>.\<close>

function SampleGaussian_row ::
  "int \<Rightarrow> 'w::len Mat \<Rightarrow> real_t \<Rightarrow> real_t \<Rightarrow> nat \<Rightarrow> nat \<Rightarrow> real_t \<times> real_t \<Rightarrow> process
     \<Rightarrow> process option" where
  "SampleGaussian_row RAND_MAX mat mu sigma i j gs p =
     (if j < unat (inner mat)
      then if even j
           then (case SampleNormal2D RAND_MAX (rng p) of
                   None \<Rightarrow> None
                 | Some ((g1, g2), g') \<Rightarrow>
                     SampleGaussian_row RAND_MAX mat mu sigma i (Suc j) (g1, g2)
                       (store (cell mat i j) (mu + g1 * sigma) (p\<lparr>rng := g'\<rparr>)))
           else SampleGaussian_row RAND_MAX mat mu sigma i (Suc j) gs
                  (store (cell mat i j) (mu + snd gs * sigma) p)
      else Some p)"
  by pat_completeness auto
termination
  by (relation "measure (\<lambda>(RAND_MAX, mat, mu, sigma, i, j, gs, p). unat (inner mat) - j)") auto

declare SampleGaussian_row.simps [simp del]

function SampleGaussian_rows ::
  "int \<Rightarrow> 'w::len Mat \<Rightarrow> real_t \<Rightarrow> real_t \<Rightarrow> nat \<Rightarrow> process \<Rightarrow> process option" where
  "SampleGaussian_rows RAND_MAX mat mu sigma i p =
     (if i < unat (outer mat)
      then (case SampleGaussian_row RAND_MAX mat mu sigma i 0 (0, 0) p of
              None \<Rightarrow> None
            | Some p' \<Rightarrow> SampleGaussian_rows RAND_MAX mat mu sigma (Suc i) p')
      else Some p)"
  by pat_completeness auto
termination
  by (relation "measure (\<lambda>(RAND_MAX, mat, mu, sigma, i, p). unat (outer mat) - i)") auto

declare SampleGaussian_rows.simps [simp del]

definition SampleGaussian ::
  "int \<Rightarrow> 'w::len Tensor \<Rightarrow> real_t \<Rightarrow> real_t \<Rightarrow> process \<Rightarrow> process option" where
  "SampleGaussian RAND_MAX dst mu sigma p = SampleGaussian_rows RAND_MAX (FlatTo2D dst) mu sigma 0 p"

subsection \<open>Temporaries in the scratch buffer\<close>

text \<open>\<^verbatim>\<open>expr::MakeExp<op::identity>(temp)\<close> wraps the tensor for the expression engine; the
  model returns the tensor itself.\<close>

definition uniform ::
  "int \<Rightarrow> 'w::len Random \<Rightarrow> 'w Shape \<Rightarrow> process \<Rightarrow> error + ('w Tensor \<times> process)" where
  "uniform RAND_MAX this sh p =
     (case GetTemp this sh of
        Inl e \<Rightarrow> Inl e
      | Inr temp \<Rightarrow> Inr (temp, SampleUniform RAND_MAX temp 0 1 p))"

definition gaussian ::
  "int \<Rightarrow> 'w::len Random \<Rightarrow> 'w Shape \<Rightarrow> process \<Rightarrow> (error + ('w Tensor \<times> process)) option" where
  "gaussian RAND_MAX this sh p =
     (case GetTemp this sh of
        Inl e \<Rightarrow> Some (Inl e)
      | Inr temp \<Rightarrow>
          (case SampleGaussian RAND_MAX temp 0 1 p of
             None \<Rightarrow> None
           | Some p' \<Rightarrow> Some (Inr (temp, p'))))"


section \<open>The arithmetic of real_t in binary32\<close>

subsection \<open>Rounding\<close>

text \<open>
  IEEE 754 rounding to nearest, ties to even, into a binary floating-point format with
  \<open>prec\<close> significant bits: 24 for binary32 (\<^verbatim>\<open>float\<close>), 53 for binary64 (\<^verbatim>\<open>double\<close>).
  \<open>exponent x\<close> is the integer \<open>k\<close> with \<open>2 powi k \<le> \<bar>x\<bar> < 2 powi (k + 1)\<close>, for \<open>x \<noteq> 0\<close>: the
  number of binary digits of the integer part of \<open>\<bar>x\<bar>\<close>, less one, where \<open>\<bar>x\<bar> \<ge> 1\<close>, and
  found from the reciprocal otherwise. The numbers of the format around \<open>x\<close> are the
  multiples of \<open>quantum prec x = 2 powi (k - prec + 1)\<close>; \<open>x\<close> is rounded to the nearest of
  them, and to the one with the even multiplier when it lies half-way between two. The
  exponent range is not limited: overflow and subnormal numbers are not modelled, and
  every operand and result below lies in the normal range of its format or is 0.
\<close>

definition exponent :: "real \<Rightarrow> int" where
  "exponent x =
     (if 1 \<le> \<bar>x\<bar> then bitlen \<lfloor>\<bar>x\<bar>\<rfloor> - 1 else - bitlen (\<lceil>1 / \<bar>x\<bar>\<rceil> - 1))"

definition round_half_even :: "real \<Rightarrow> int" where
  "round_half_even q =
     (let f = \<lfloor>q\<rfloor>
      in if q - of_int f < 1 / 2 \<or> (q - of_int f = 1 / 2 \<and> even f) then f else f + 1)"

definition quantum :: "nat \<Rightarrow> real \<Rightarrow> real" where
  "quantum prec x = 2 powi (exponent x - int prec + 1)"

definition round_to :: "nat \<Rightarrow> real \<Rightarrow> real" where
  "round_to prec x =
     (if x = 0 then 0 else of_int (round_half_even (x / quantum prec x)) * quantum prec x)"

definition binary32 :: "real \<Rightarrow> real" where
  "binary32 = round_to 24"

definition binary64 :: "real \<Rightarrow> real" where
  "binary64 = round_to 53"

subsection \<open>Uniform sampling in binary32\<close>

text \<open>\<^verbatim>\<open>static_cast<real_t>(rand()) / (static_cast<real_t>(RAND_MAX)+1.0f)\<close>: all operands
  are of type \<^verbatim>\<open>float\<close>. The conversion of each of the two integers, the sum and the
  quotient are rounded to binary32.\<close>

definition RandNext_binary32 :: "int \<Rightarrow> rand_state \<Rightarrow> real_t \<times> rand_state" where
  "RandNext_binary32 RAND_MAX g =
     (let (r, g') = rand g
      in (binary32 (binary32 (real_of_int r) / binary32 (binary32 (real_of_int RAND_MAX) + 1)),
          g'))"

text \<open>The loops of \<^verbatim>\<open>SampleUniform\<close> as above, with \<^verbatim>\<open>mat[i][j] = this->RandNext()*(b-a) + a\<close>
  in binary32: the difference, the product and the sum are rounded. The bounds \<open>a\<close> and
  \<open>b\<close> are values of \<^verbatim>\<open>real_t\<close>.\<close>

function SampleUniform_row_binary32 ::
  "int \<Rightarrow> 'w::len Mat \<Rightarrow> real_t \<Rightarrow> real_t \<Rightarrow> nat \<Rightarrow> nat \<Rightarrow> process \<Rightarrow> process" where
  "SampleUniform_row_binary32 RAND_MAX mat a b i j p =
     (if j < unat (inner mat)
      then let (r, g') = RandNext_binary32 RAND_MAX (rng p)
           in SampleUniform_row_binary32 RAND_MAX mat a b i (Suc j)
                (store (cell mat i j) (binary32 (binary32 (r * binary32 (b - a)) + a))
                   (p\<lparr>rng := g'\<rparr>))
      else p)"
  by pat_completeness auto
termination
  by (relation "measure (\<lambda>(RAND_MAX, mat, a, b, i, j, p). unat (inner mat) - j)") auto

declare SampleUniform_row_binary32.simps [simp del]

function SampleUniform_rows_binary32 ::
  "int \<Rightarrow> 'w::len Mat \<Rightarrow> real_t \<Rightarrow> real_t \<Rightarrow> nat \<Rightarrow> process \<Rightarrow> process" where
  "SampleUniform_rows_binary32 RAND_MAX mat a b i p =
     (if i < unat (outer mat)
      then SampleUniform_rows_binary32 RAND_MAX mat a b (Suc i)
             (SampleUniform_row_binary32 RAND_MAX mat a b i 0 p)
      else p)"
  by pat_completeness auto
termination
  by (relation "measure (\<lambda>(RAND_MAX, mat, a, b, i, p). unat (outer mat) - i)") auto

declare SampleUniform_rows_binary32.simps [simp del]

definition SampleUniform_binary32 ::
  "int \<Rightarrow> 'w::len Tensor \<Rightarrow> real_t \<Rightarrow> real_t \<Rightarrow> process \<Rightarrow> process" where
  "SampleUniform_binary32 RAND_MAX dst a b p =
     SampleUniform_rows_binary32 RAND_MAX (FlatTo2D dst) a b 0 p"

subsection \<open>The uniform source of the Gaussian sampler in binary32\<close>

text \<open>\<^verbatim>\<open>(static_cast<real_t>( rand() ) + 1.0 ) / (static_cast<real_t>(RAND_MAX) + 2.0)\<close>: the
  two integers are converted to \<^verbatim>\<open>float\<close> (rounded to binary32); the literals \<^verbatim>\<open>1.0\<close> and
  \<^verbatim>\<open>2.0\<close> are of type \<^verbatim>\<open>double\<close>, so the two sums and the quotient are taken in \<^verbatim>\<open>double\<close>
  (rounded to binary64); the \<^verbatim>\<open>return\<close> converts the quotient to \<^verbatim>\<open>real_t\<close> (rounded to
  binary32).\<close>

definition RandNext2_binary32 :: "int \<Rightarrow> rand_state \<Rightarrow> real_t \<times> rand_state" where
  "RandNext2_binary32 RAND_MAX g =
     (let (r, g') = rand g
      in (binary32 (binary64 (binary64 (binary32 (real_of_int r) + 1)
                      / binary64 (binary32 (real_of_int RAND_MAX) + 2))),
          g'))"


section \<open>Notions used to state the properties\<close>

subsection \<open>The generator after some calls\<close>

text \<open>\<open>shift k g\<close> is the state of the generator \<open>g\<close> after \<open>k\<close> calls of \<^verbatim>\<open>rand()\<close>.\<close>

definition shift :: "nat \<Rightarrow> rand_state \<Rightarrow> rand_state" where
  "shift k g = (\<lambda>n. g (n + k))"

subsection \<open>The attempts of the rejection loop\<close>

text \<open>
  Attempt \<open>k\<close> of the loop of \<^verbatim>\<open>SampleNormal2D\<close> uses the draws \<open>2k\<close> and \<open>2k + 1\<close> of the
  generator: \<open>u\<close> and \<open>v\<close> are \<^verbatim>\<open>(rand()+1)/(RAND_MAX+2)\<close> of these draws, \<open>x = 2u - 1\<close>,
  \<open>y = 2v - 1\<close>, \<open>s = x\<^sup>2 + y\<^sup>2\<close>, and the attempt is rejected when \<open>s \<ge> 1\<close> or \<open>s = 0\<close>.
\<close>

definition BoxMuller_uniform :: "int \<Rightarrow> rand_state \<Rightarrow> nat \<Rightarrow> real" where
  "BoxMuller_uniform RAND_MAX g n = (real_of_int (g n) + 1) / (real_of_int RAND_MAX + 2)"

definition BoxMuller_xys :: "int \<Rightarrow> rand_state \<Rightarrow> nat \<Rightarrow> real \<times> real \<times> real" where
  "BoxMuller_xys RAND_MAX g k =
     (let u = BoxMuller_uniform RAND_MAX g (2 * k);
          v = BoxMuller_uniform RAND_MAX g (2 * k + 1);
          x = 2 * u - 1;
          y = 2 * v - 1;
          s = x\<^sup>2 + y\<^sup>2
      in (x, y, s))"

definition BoxMuller_rejected :: "int \<Rightarrow> rand_state \<Rightarrow> nat \<Rightarrow> bool" where
  "BoxMuller_rejected RAND_MAX g k =
     (case BoxMuller_xys RAND_MAX g k of (x, y, s) \<Rightarrow> s \<ge> 1 \<or> s = 0)"

subsection \<open>Rows of values and where they are written\<close>

text \<open>\<open>write_row a vs m\<close> is the memory \<open>m\<close> with the values \<open>vs\<close> in the consecutive cells
  from \<open>a\<close> on; \<open>write_rows mat i vss m\<close> writes the rows \<open>vss\<close> into the rows \<open>i\<close>, \<open>i + 1\<close>,
  ... of the matrix \<open>mat\<close>, in this order.\<close>

definition write_row :: "addr \<Rightarrow> real_t list \<Rightarrow> (addr \<Rightarrow> real_t) \<Rightarrow> (addr \<Rightarrow> real_t)" where
  "write_row a vs m = (\<lambda>x. if a \<le> x \<and> x < a + length vs then vs ! (x - a) else m x)"

fun write_rows ::
  "'w::len Mat \<Rightarrow> nat \<Rightarrow> real_t list list \<Rightarrow> (addr \<Rightarrow> real_t) \<Rightarrow> (addr \<Rightarrow> real_t)" where
  "write_rows mat i [] m = m"
| "write_rows mat i (vs # vss) m = write_rows mat (Suc i) vss (write_row (cell mat i 0) vs m)"

text \<open>The offsets from the base pointer that rows \<open>vss\<close>, written from row \<open>i\<close> on with
  stride \<open>st\<close>, cover.\<close>

definition offsets :: "nat \<Rightarrow> nat \<Rightarrow> real_t list list \<Rightarrow> nat set" where
  "offsets st i vss = {(i + k) * st + j | k j. k < length vss \<and> j < length (vss ! k)}"

text \<open>The cells of a matrix, and the contents of a tensor read row by row.\<close>

definition cells :: "'w::len Mat \<Rightarrow> addr set" where
  "cells mat = {cell mat i j | i j. i < unat (outer mat) \<and> j < unat (inner mat)}"

definition contents :: "process \<Rightarrow> 'w::len Tensor \<Rightarrow> real_t list list" where
  "contents p t =
     (let mat = FlatTo2D t
      in map (\<lambda>i. map (\<lambda>j. memory p (cell mat i j)) [0 ..< unat (inner mat)])
           [0 ..< unat (outer mat)])"

text \<open>The contents of the scratch buffer of an engine.\<close>

definition buffer_contents :: "'w::len Random \<Rightarrow> process \<Rightarrow> real_t list" where
  "buffer_contents this p =
     map (\<lambda>j. memory p (dptr (buffer this) + j)) [0 ..< unat (shape0 (shape (buffer this)))]"

text \<open>The \<open>n\<close> values that \<^verbatim>\<open>RandNext()*(b-a) + a\<close> takes on the next \<open>n\<close> draws.\<close>

definition uniform_values :: "int \<Rightarrow> real_t \<Rightarrow> real_t \<Rightarrow> nat \<Rightarrow> rand_state \<Rightarrow> real_t list" where
  "uniform_values RAND_MAX a b n g =
     map (\<lambda>k. real_of_int (g k) / (real_of_int RAND_MAX + 1) * (b - a) + a) [0 ..< n]"

text \<open>\<open>draw_pairs RAND_MAX k g\<close>: the pairs that \<open>k\<close> successive calls of \<^verbatim>\<open>SampleNormal2D\<close>
  return, and the generator after them; \<open>rows_pairs RAND_MAX m n g\<close>: \<open>n\<close> times \<open>m\<close> pairs,
  row after row.\<close>

fun draw_pairs ::
  "int \<Rightarrow> nat \<Rightarrow> rand_state \<Rightarrow> ((real_t \<times> real_t) list \<times> rand_state) option" where
  "draw_pairs RAND_MAX 0 g = Some ([], g)"
| "draw_pairs RAND_MAX (Suc k) g =
     (case SampleNormal2D RAND_MAX g of
        None \<Rightarrow> None
      | Some (pr, g') \<Rightarrow>
          (case draw_pairs RAND_MAX k g' of
             None \<Rightarrow> None
           | Some (prs, g'') \<Rightarrow> Some (pr # prs, g'')))"

fun rows_pairs ::
  "int \<Rightarrow> nat \<Rightarrow> nat \<Rightarrow> rand_state \<Rightarrow> ((real_t \<times> real_t) list list \<times> rand_state) option" where
  "rows_pairs RAND_MAX m 0 g = Some ([], g)"
| "rows_pairs RAND_MAX m (Suc n) g =
     (case draw_pairs RAND_MAX m g of
        None \<Rightarrow> None
      | Some (prs, g') \<Rightarrow>
          (case rows_pairs RAND_MAX m n g' of
             None \<Rightarrow> None
           | Some (rows, g'') \<Rightarrow> Some (prs # rows, g'')))"

text \<open>The scalars that a list of pairs gives: \<open>mu + g1 * sigma\<close> and \<open>mu + g2 * sigma\<close> for each
  pair \<open>(g1, g2)\<close>, in this order; a row of \<open>n\<close> scalars takes the first \<open>n\<close> of them.\<close>

fun pair_values :: "real_t \<Rightarrow> real_t \<Rightarrow> (real_t \<times> real_t) list \<Rightarrow> real_t list" where
  "pair_values mu sigma [] = []"
| "pair_values mu sigma ((g1, g2) # prs) =
     (mu + g1 * sigma) # (mu + g2 * sigma) # pair_values mu sigma prs"

definition row_values :: "nat \<Rightarrow> real_t \<Rightarrow> real_t \<Rightarrow> (real_t \<times> real_t) list \<Rightarrow> real_t list" where
  "row_values n mu sigma prs = take n (pair_values mu sigma prs)"

subsection \<open>Sequences of sampling calls\<close>

text \<open>A sampling call on an engine, with its arguments. The output of a call is the
  contents of its destination (of the temporary, for \<^verbatim>\<open>uniform\<close> and \<^verbatim>\<open>gaussian\<close>) when
  it returns. A failed assertion ends the process.\<close>

datatype ('t, 's) call =
    CallSampleUniform 't real_t real_t
  | CallSampleGaussian 't real_t real_t
  | CallUniform 's
  | CallGaussian 's

fun run_call ::
  "int \<Rightarrow> 'w::len Random \<Rightarrow> ('w Tensor, 'w Shape) call \<Rightarrow> process
     \<Rightarrow> (error + (real_t list list \<times> process)) option" where
  "run_call RAND_MAX this (CallSampleUniform dst a b) p =
     (let p' = SampleUniform RAND_MAX dst a b p in Some (Inr (contents p' dst, p')))"
| "run_call RAND_MAX this (CallSampleGaussian dst mu sigma) p =
     (case SampleGaussian RAND_MAX dst mu sigma p of
        None \<Rightarrow> None
      | Some p' \<Rightarrow> Some (Inr (contents p' dst, p')))"
| "run_call RAND_MAX this (CallUniform sh) p =
     (case uniform RAND_MAX this sh p of
        Inl e \<Rightarrow> Some (Inl e)
      | Inr (temp, p') \<Rightarrow> Some (Inr (contents p' temp, p')))"
| "run_call RAND_MAX this (CallGaussian sh) p =
     (case gaussian RAND_MAX this sh p of
        None \<Rightarrow> None
      | Some (Inl e) \<Rightarrow> Some (Inl e)
      | Some (Inr (temp, p')) \<Rightarrow> Some (Inr (contents p' temp, p')))"

fun run_calls ::
  "int \<Rightarrow> 'w::len Random \<Rightarrow> ('w Tensor, 'w Shape) call list \<Rightarrow> process
     \<Rightarrow> (error + (real_t list list list \<times> process)) option" where
  "run_calls RAND_MAX this [] p = Some (Inr ([], p))"
| "run_calls RAND_MAX this (c # cs) p =
     (case run_call RAND_MAX this c p of
        None \<Rightarrow> None
      | Some (Inl e) \<Rightarrow> Some (Inl e)
      | Some (Inr (out, p')) \<Rightarrow>
          (case run_calls RAND_MAX this cs p' of
             None \<Rightarrow> None
           | Some (Inl e) \<Rightarrow> Some (Inl e)
           | Some (Inr (outs, p'')) \<Rightarrow> Some (Inr (out # outs, p''))))"

text \<open>What a run shows: the outputs, or the failure, or nothing when it does not return.\<close>

definition outputs :: "(error + ('o \<times> process)) option \<Rightarrow> (error + 'o) option" where
  "outputs r = map_option (map_sum id fst) r"

text \<open>An engine is constructed with a seed and then given a sequence of calls, nothing
  else touching the generator in between.\<close>

definition session ::
  "(int \<Rightarrow> rand_state) \<Rightarrow> int \<Rightarrow> 'w::len word \<Rightarrow> addr \<Rightarrow> 'w word \<Rightarrow> int
     \<Rightarrow> ('w Tensor, 'w Shape) call list \<Rightarrow> process
     \<Rightarrow> (error + (real_t list list list \<times> process)) option" where
  "session srand_seq RAND_MAX kRandBufferSize base pitch seed cs p =
     (let (this, p') = Random_cpu srand_seq kRandBufferSize base pitch seed p
      in run_calls RAND_MAX this cs p')"

subsection \<open>A C library\<close>

text \<open>The portable \<^verbatim>\<open>rand\<close> and \<^verbatim>\<open>srand\<close> that ISO C gives as an example (7.22.2.2):
  \<^verbatim>\<open>next = next * 1103515245 + 12345; return (unsigned)(next/65536) % 32768;\<close> with
  \<^verbatim>\<open>RAND_MAX\<close> 32767, and \<^verbatim>\<open>srand(seed)\<close> setting \<^verbatim>\<open>next = seed\<close>. Only the bits 16 to
  30 of \<^verbatim>\<open>next\<close> are returned, so the values are the same for every width of
  \<^verbatim>\<open>unsigned long\<close> from 32 bits on.\<close>

fun iso_c_next :: "nat \<Rightarrow> nat \<Rightarrow> nat" where
  "iso_c_next seed 0 = seed"
| "iso_c_next seed (Suc n) = (iso_c_next seed n * 1103515245 + 12345) mod 2 ^ 32"

definition iso_c_rand :: "int \<Rightarrow> rand_state" where
  "iso_c_rand seed n = int ((iso_c_next (nat (seed mod 2 ^ 32)) (Suc n) div 65536) mod 32768)"

section \<open>GetTemp: the padded stride and the capacity check\<close>

lemma padded_stride_unat:
  fixes x :: "'w::len word"
  assumes "unat x + 3 < 2 ^ LENGTH('w)"
  shows "unat (push_bit 2 (drop_bit 2 (x + 3))) = ((unat x + 3) div 4) * 4"
proof -
  have "(3::nat) < 2 ^ LENGTH('w)" using assms by linarith
  then have 3: "unat (3 :: 'w word) = 3"
    by (simp only: unat_numeral mod_less)
  have a: "unat (x + 3) = unat x + 3"
    using assms by (simp only: unat_word_ariths 3 mod_less)
  have b: "unat (drop_bit 2 (x + 3)) = (unat x + 3) div 4"
    by (simp only: unat_drop_bit_eq a) (simp add: drop_bit_eq_div)
  have "(unat x + 3) div 4 * 4 \<le> unat x + 3" by simp
  then have c: "(unat x + 3) div 4 * 4 < 2 ^ LENGTH('w)" using assms by linarith
  have "unat (push_bit 2 (drop_bit 2 (x + 3)))
      = take_bit LENGTH('w) (push_bit 2 (unat (drop_bit 2 (x + 3))))"
    by (simp only: unsigned_push_bit_eq)
  also have "\<dots> = (unat x + 3) div 4 * 4"
    using c by (simp only: b push_bit_eq_mult) (simp add: take_bit_nat_eq_self)
  finally show ?thesis .
qed

lemma least_multiple_of_4:
  "(LEAST m::nat. 4 dvd m \<and> n \<le> m) = (n + 3) div 4 * 4"
proof (rule Least_equality)
  show "4 dvd (n + 3) div 4 * 4 \<and> n \<le> (n + 3) div 4 * 4" by presburger
next
  fix y :: nat assume "4 dvd y \<and> n \<le> y"
  then show "(n + 3) div 4 * 4 \<le> y" by presburger
qed

lemma GetTemp_stride_eq:
  "GetTemp this sh = Inr t \<or> GetTemp_gpu this sh = Inr t \<Longrightarrow>
   stride (shape t) = push_bit 2 (drop_bit 2 (shape0 sh + 3))"
  by (auto simp: GetTemp_def GetTemp_gpu_def Let_def split: if_splits)

text \<open>
  Claim C2, as amended. Whenever \<^verbatim>\<open>shape[0] + 3\<close> does not wrap around in \<^verbatim>\<open>index_t\<close>, the
  stride of the view that GetTemp returns (on the CPU engine and on the GPU engine) is
  the smallest multiple of 4 that is greater than or equal to \<^verbatim>\<open>shape[0]\<close>.
\<close>

theorem GetTemp_stride_padded:
  fixes sh :: "'w::len Shape"
  assumes "unat (shape0 sh) + 3 < 2 ^ LENGTH('w)"
    and "GetTemp this sh = Inr t \<or> GetTemp_gpu this sh = Inr t"
  shows "unat (stride (shape t)) = (LEAST m. 4 dvd m \<and> unat (shape0 sh) \<le> m)"
  using assms
  by (simp only: GetTemp_stride_eq [OF assms(2)] padded_stride_unat least_multiple_of_4)

text \<open>A 5 x 3 request on a 32-bit \<^verbatim>\<open>index_t\<close>: the stride is 8.\<close>

theorem GetTemp_stride_padded_witness:
  "GetTemp \<lparr>buffer = \<lparr>dptr = 0, shape = \<lparr>shape0 = 1024, rest = [], stride = 1024\<rparr>\<rparr>\<rparr>
     \<lparr>shape0 = 5 :: 32 word, rest = [3], stride = 0\<rparr>
   = Inr \<lparr>dptr = 0, shape = \<lparr>shape0 = 5, rest = [3], stride = 8\<rparr>\<rparr>
   \<and> unat (8 :: 32 word) = (LEAST m. 4 dvd m \<and> unat (5 :: 32 word) \<le> m)"
proof -
  let ?this = "\<lparr>buffer = \<lparr>dptr = 0, shape = \<lparr>shape0 = 1024 :: 32 word, rest = [], stride = 1024\<rparr>\<rparr>\<rparr>"
  let ?sh = "\<lparr>shape0 = 5 :: 32 word, rest = [3], stride = 0\<rparr>"
  let ?t = "\<lparr>dptr = 0, shape = \<lparr>shape0 = 5 :: 32 word, rest = [3], stride = 8\<rparr>\<rparr>"
  have run: "GetTemp ?this ?sh = Inr ?t"
    by (simp add: GetTemp_def MSize_def Let_def)
  have small: "unat (shape0 ?sh) + 3 < 2 ^ LENGTH(32)" by simp
  from GetTemp_stride_padded [OF small disjI1 [OF run]] run show ?thesis by simp
qed

text \<open>
  Claim C2 as stated fails where \<^verbatim>\<open>shape[0] + 3\<close> wraps around. With a 32-bit \<^verbatim>\<open>index_t\<close>
  and \<^verbatim>\<open>shape[0] = 4294967295\<close> the sum is 2, the stride is 0, the padded element count is
  0, the assertion holds, and GetTemp returns a view whose stride is below \<^verbatim>\<open>shape[0]\<close>.
\<close>

theorem GetTemp_stride_wraps_counterexample:
  "GetTemp \<lparr>buffer = \<lparr>dptr = 0, shape = \<lparr>shape0 = 1024, rest = [], stride = 1024\<rparr>\<rparr>\<rparr>
     \<lparr>shape0 = 4294967295 :: 32 word, rest = [], stride = 0\<rparr>
   = Inr \<lparr>dptr = 0, shape = \<lparr>shape0 = 4294967295, rest = [], stride = 0\<rparr>\<rparr>
   \<and> unat (0 :: 32 word) < unat (4294967295 :: 32 word)"
  by (simp add: GetTemp_def MSize_def Let_def)

text \<open>The CPU engine's check: GetTemp returns a view exactly when the buffer's capacity
  exceeds the padded element count, and fails otherwise.\<close>

lemma GetTemp_cpu_capacity:
  "GetTemp this sh =
     (if MSize (sh\<lparr>stride := push_bit 2 (drop_bit 2 (shape0 sh + 3))\<rparr>)
           < unat (shape0 (shape (buffer this)))
      then Inr \<lparr>dptr = dptr (buffer this),
                shape = sh\<lparr>stride := push_bit 2 (drop_bit 2 (shape0 sh + 3))\<rparr>\<rparr>
      else Inl (AssertError ''gaussian: random engine buffer do not have enough memory''))"
  by (simp add: GetTemp_def Let_def)

text \<open>
  Claim C1: on either engine GetTemp fails fatally when the padded element count of the
  shape is greater than or equal to the capacity of the scratch buffer. The CPU engine
  does (the lemma above); the GPU engine's GetTemp has no assertion. With a buffer of 16
  elements and the shape [20], the padded element count is 20: the GPU engine returns
  the view, the CPU engine fails.
\<close>

theorem GetTemp_gpu_no_capacity_check:
  "MSize \<lparr>shape0 = 20 :: 32 word, rest = [], stride = 20\<rparr> = 20
   \<and> GetTemp_gpu \<lparr>buffer = \<lparr>dptr = 0, shape = \<lparr>shape0 = 16, rest = [], stride = 16\<rparr>\<rparr>\<rparr>
        \<lparr>shape0 = 20 :: 32 word, rest = [], stride = 0\<rparr>
     = Inr \<lparr>dptr = 0, shape = \<lparr>shape0 = 20, rest = [], stride = 20\<rparr>\<rparr>
   \<and> GetTemp \<lparr>buffer = \<lparr>dptr = 0, shape = \<lparr>shape0 = 16, rest = [], stride = 16\<rparr>\<rparr>\<rparr>
        \<lparr>shape0 = 20 :: 32 word, rest = [], stride = 0\<rparr>
     = Inl (AssertError ''gaussian: random engine buffer do not have enough memory'')"
  by (simp add: GetTemp_def GetTemp_gpu_def MSize_def Let_def)
section \<open>SampleNormal2D\<close>

lemma shift_0 [simp]: "shift 0 g = g"
  by (simp add: shift_def)

lemma shift_shift: "shift a (shift b g) = shift (a + b) g"
  by (simp add: shift_def add.assoc)

lemma rand_shift: "rand g = (g 0, shift 1 g)"
  by (simp add: rand_def shift_def)

lemma BoxMuller_uniform_shift:
  "BoxMuller_uniform RM (shift k g) n = BoxMuller_uniform RM g (n + k)"
  by (simp only: BoxMuller_uniform_def shift_def)

lemma BoxMuller_xys_shift:
  "BoxMuller_xys RM (shift 2 g) k = BoxMuller_xys RM g (Suc k)"
proof -
  have a: "2 * k + 2 = 2 * Suc k" and b: "2 * k + 1 + 2 = 2 * Suc k + 1"
    by simp_all
  show ?thesis
    by (simp only: BoxMuller_xys_def BoxMuller_uniform_shift a b)
qed

lemma BoxMuller_rejected_shift:
  "BoxMuller_rejected RM (shift 2 g) k = BoxMuller_rejected RM g (Suc k)"
  by (simp add: BoxMuller_rejected_def BoxMuller_xys_shift)

lemma SampleNormal2D_body:
  "(let (u, g1) = RandNext2 RM g;
        x = 2 * u - 1;
        (v, g2) = RandNext2 RM g1;
        y = 2 * v - 1;
        s = x * x + y * y
    in if s \<ge> 1 \<or> s = 0 then f RM g2 else Some ((x, y, s), g2))
   = (if BoxMuller_rejected RM g 0 then f RM (shift 2 g)
      else Some (BoxMuller_xys RM g 0, shift 2 g))"
proof -
  have g2: "shift 1 (shift 1 g) = shift 2 g"
    by (simp add: shift_def)
  have g1: "shift 1 g 0 = g 1"
    by (simp add: shift_def)
  show ?thesis
    unfolding RandNext2_def rand_shift Let_def prod.case g1 g2
      BoxMuller_rejected_def BoxMuller_xys_def BoxMuller_uniform_def power2_eq_square
    by simp
qed

lemma SampleNormal2D_loop_step:
  "SampleNormal2D_loop RM g =
     (if BoxMuller_rejected RM g 0 then SampleNormal2D_loop RM (shift 2 g)
      else Some (BoxMuller_xys RM g 0, shift 2 g))"
  by (subst SampleNormal2D_loop.simps) (rule SampleNormal2D_body)

lemma SampleNormal2D_loop_accept:
  "\<not> BoxMuller_rejected RM g k \<Longrightarrow> \<forall>k' < k. BoxMuller_rejected RM g k' \<Longrightarrow>
   SampleNormal2D_loop RM g = Some (BoxMuller_xys RM g k, shift (2 * (k + 1)) g)"
proof (induction k arbitrary: g)
  case 0
  then show ?case by (subst SampleNormal2D_loop_step) simp
next
  case (Suc k)
  have rej: "BoxMuller_rejected RM g 0" using Suc.prems(2) by blast
  have acc: "\<not> BoxMuller_rejected RM (shift 2 g) k"
    using Suc.prems(1) by (simp add: BoxMuller_rejected_shift)
  have before: "\<forall>k' < k. BoxMuller_rejected RM (shift 2 g) k'"
    using Suc.prems(2) by (simp add: BoxMuller_rejected_shift)
  have "SampleNormal2D_loop RM g = SampleNormal2D_loop RM (shift 2 g)"
    using rej by (subst SampleNormal2D_loop_step) simp
  also have "\<dots> = Some (BoxMuller_xys RM (shift 2 g) k, shift (2 * (k + 1)) (shift 2 g))"
    by (rule Suc.IH [OF acc before])
  also have "\<dots> = Some (BoxMuller_xys RM g (Suc k), shift (2 * (Suc k + 1)) g)"
    by (simp only: BoxMuller_xys_shift shift_shift) simp
  finally show ?case .
qed

lemma SampleNormal2D_loop_Some:
  assumes "SampleNormal2D_loop RM g = Some r"
  shows "\<exists>k. \<not> BoxMuller_rejected RM g k"
proof (rule SampleNormal2D_loop.raw_induct
    [where P = "\<lambda>RM g r. \<exists>k. \<not> BoxMuller_rejected RM g k", OF _ assms])
  fix loop :: "int \<Rightarrow> rand_state \<Rightarrow> ((real \<times> real \<times> real) \<times> rand_state) option"
    and RM g r
  assume IH: "\<And>RM g r. loop RM g = Some r \<Longrightarrow> \<exists>k. \<not> BoxMuller_rejected RM g k"
    and "(let (u, g1) = RandNext2 RM g;
              x = 2 * u - 1;
              (v, g2) = RandNext2 RM g1;
              y = 2 * v - 1;
              s = x * x + y * y
          in if s \<ge> 1 \<or> s = 0 then loop RM g2 else Some ((x, y, s), g2)) = Some r"
  then have body: "(if BoxMuller_rejected RM g 0 then loop RM (shift 2 g)
      else Some (BoxMuller_xys RM g 0, shift 2 g)) = Some r"
    by (simp only: SampleNormal2D_body)
  show "\<exists>k. \<not> BoxMuller_rejected RM g k"
  proof (cases "BoxMuller_rejected RM g 0")
    case False
    then show ?thesis by blast
  next
    case True
    then have "loop RM (shift 2 g) = Some r"
      using body by simp
    then obtain k where "\<not> BoxMuller_rejected RM (shift 2 g) k"
      using IH by blast
    then have "\<not> BoxMuller_rejected RM g (Suc k)"
      by (simp add: BoxMuller_rejected_shift)
    then show ?thesis ..
  qed
qed

lemma SampleNormal2D_loop_None:
  "\<forall>k. BoxMuller_rejected RM g k \<Longrightarrow> SampleNormal2D_loop RM g = None"
  using SampleNormal2D_loop_Some [of RM g] by (cases "SampleNormal2D_loop RM g") auto

lemma SampleNormal2D_loop_spec:
  "SampleNormal2D_loop RM g =
     (if \<exists>k. \<not> BoxMuller_rejected RM g k
      then Some (BoxMuller_xys RM g (LEAST k. \<not> BoxMuller_rejected RM g k),
                 shift (2 * ((LEAST k. \<not> BoxMuller_rejected RM g k) + 1)) g)
      else None)"
proof (cases "\<exists>k. \<not> BoxMuller_rejected RM g k")
  case False
  then have "SampleNormal2D_loop RM g = None"
    by (intro SampleNormal2D_loop_None) blast
  with False show ?thesis by (simp only: if_False)
next
  case True
  let ?k = "LEAST k. \<not> BoxMuller_rejected RM g k"
  from True obtain k0 where "\<not> BoxMuller_rejected RM g k0" ..
  then have acc: "\<not> BoxMuller_rejected RM g ?k"
    by (rule LeastI)
  have before: "\<forall>k' < ?k. BoxMuller_rejected RM g k'"
    using not_less_Least by blast
  from True SampleNormal2D_loop_accept [OF acc before] show ?thesis
    by (simp only: if_True)
qed

lemma SampleNormal2D_loop_exit_attempt:
  assumes "SampleNormal2D_loop RM g = Some (r, g')"
  shows "\<exists>k. \<not> BoxMuller_rejected RM g k \<and> r = BoxMuller_xys RM g k \<and> g' = shift (2 * (k + 1)) g"
proof -
  have ex: "\<exists>k. \<not> BoxMuller_rejected RM g k"
    using assms by (rule SampleNormal2D_loop_Some)
  let ?k = "LEAST k. \<not> BoxMuller_rejected RM g k"
  from ex obtain k0 where "\<not> BoxMuller_rejected RM g k0" ..
  then have acc: "\<not> BoxMuller_rejected RM g ?k"
    by (rule LeastI)
  have "SampleNormal2D_loop RM g = Some (BoxMuller_xys RM g ?k, shift (2 * (?k + 1)) g)"
    using ex by (subst SampleNormal2D_loop_spec) (simp only: if_True)
  with assms have "r = BoxMuller_xys RM g ?k" and "g' = shift (2 * (?k + 1)) g"
    by simp_all
  with acc show ?thesis by blast
qed

text \<open>
  Claim C8. Whenever the rejection loop of \<^verbatim>\<open>SampleNormal2D\<close> is left, \<open>s = x\<^sup>2 + y\<^sup>2\<close> lies
  strictly between 0 and 1, so \<open>ln s\<close> is taken of a positive number and is negative, the
  division is by a non-zero number, and the argument \<open>-2 ln s / s\<close> of the square root is
  not negative.
\<close>

theorem SampleNormal2D_loop_exit:
  assumes "SampleNormal2D_loop RAND_MAX g = Some ((x, y, s), g')"
  shows "s = x * x + y * y \<and> 0 < s \<and> s < 1 \<and> ln s < 0 \<and> 0 \<le> - 2 * ln s / s"
proof -
  from SampleNormal2D_loop_exit_attempt [OF assms]
  obtain k where acc: "\<not> BoxMuller_rejected RAND_MAX g k"
    and r: "(x, y, s) = BoxMuller_xys RAND_MAX g k"
    by blast
  from r have s: "s = x * x + y * y"
    by (simp add: BoxMuller_xys_def Let_def power2_eq_square)
  from acc r have "\<not> (s \<ge> 1 \<or> s = 0)"
    by (simp add: BoxMuller_rejected_def split: prod.splits)
  moreover have "0 \<le> s"
    unfolding s by simp
  ultimately have pos: "0 < s" and lt: "s < 1"
    by simp_all
  then have ln: "ln s < 0"
    by simp
  have "0 \<le> (- 2 * ln s) / s"
    using pos ln by (intro divide_nonneg_pos) simp_all
  with s pos lt ln show ?thesis by simp
qed


lemma SampleNormal2D_loop_example:
  "SampleNormal2D_loop 32767 (\<lambda>n. if n < 2 then 32767 else if n = 2 then 8191 else 16383)
   = Some ((- (16385 / 32769), - (1 / 32769), 268468226 / 1073807361),
       shift 4 (\<lambda>n. if n < 2 then 32767 else if n = 2 then 8191 else 16383))"
proof -
  let ?g = "\<lambda>n::nat. if n < 2 then 32767 else if n = 2 then 8191 else (16383::int)"
  have rej: "BoxMuller_rejected 32767 ?g 0"
    by (simp add: BoxMuller_rejected_def BoxMuller_xys_def BoxMuller_uniform_def Let_def
        power2_eq_square)
  have acc: "\<not> BoxMuller_rejected 32767 ?g (Suc 0)"
    by (simp add: BoxMuller_rejected_def BoxMuller_xys_def BoxMuller_uniform_def Let_def
        power2_eq_square)
  have before: "\<forall>k' < Suc 0. BoxMuller_rejected 32767 ?g k'"
    using rej by simp
  have xys: "BoxMuller_xys 32767 ?g (Suc 0) = (- (16385 / 32769), - (1 / 32769), 268468226 / 1073807361)"
    by (simp add: BoxMuller_xys_def BoxMuller_uniform_def Let_def power2_eq_square)
  show ?thesis
    using SampleNormal2D_loop_accept [OF acc before] by (simp add: xys)
qed


text \<open>A generator with \<^verbatim>\<open>RAND_MAX\<close> 32767 whose first two draws are 32767 (rejected, \<open>s > 1\<close>)
  and whose next two are 8191 and 16383 (accepted).\<close>

theorem SampleNormal2D_loop_exit_witness:
  "SampleNormal2D_loop 32767 (\<lambda>n. if n < 2 then 32767 else if n = 2 then 8191 else 16383)
     = Some ((- (16385 / 32769), - (1 / 32769), 268468226 / 1073807361),
         shift 4 (\<lambda>n. if n < 2 then 32767 else if n = 2 then 8191 else 16383))
   \<and> (0::real) < 268468226 / 1073807361
   \<and> (268468226 / 1073807361 :: real) < 1
   \<and> ln (268468226 / 1073807361 :: real) < 0
   \<and> (0::real) \<le> - 2 * ln (268468226 / 1073807361) / (268468226 / 1073807361)"
  using SampleNormal2D_loop_example SampleNormal2D_loop_exit [OF SampleNormal2D_loop_example] by blast

section \<open>The sampling loops in closed form\<close>

lemma write_row_Nil [simp]: "write_row a [] m = m"
  by (simp add: write_row_def fun_eq_iff)

lemma write_row_Cons: "write_row (Suc a) vs (m(a := v)) = write_row a (v # vs) m"
  by (auto simp: write_row_def fun_eq_iff nth_Cons' Suc_diff_le)

lemma map_upt_shift: "map f [0 ..< Suc n] = f 0 # map (\<lambda>k. f (Suc k)) [0 ..< n]"
  by (simp only: upt_conv_Cons [of 0 "Suc n"] list.map map_Suc_upt [symmetric] map_map comp_def)

lemma uniform_values_Suc:
  "uniform_values RM a b (Suc n) g =
     (real_of_int (g 0) / (real_of_int RM + 1) * (b - a) + a) # uniform_values RM a b n (shift 1 g)"
  by (simp only: uniform_values_def map_upt_shift) (simp add: shift_def)

lemma cell_Suc: "cell mat i (Suc j) = Suc (cell mat i j)"
  by (simp add: cell_def)

lemma RandNext_shift: "RandNext RM g = (real_of_int (g 0) / (real_of_int RM + 1), shift 1 g)"
  by (simp add: RandNext_def rand_shift)

lemma SampleUniform_row_closed:
  "SampleUniform_row RM mat a b i j p =
     p\<lparr>memory := write_row (cell mat i j) (uniform_values RM a b (unat (inner mat) - j) (rng p))
                   (memory p),
       rng := shift (unat (inner mat) - j) (rng p)\<rparr>"
proof (induction "unat (inner mat) - j" arbitrary: j p)
  case 0
  then have "\<not> j < unat (inner mat)" by simp
  with 0 show ?case
    by (subst SampleUniform_row.simps) (simp add: uniform_values_def)
next
  case (Suc n)
  then have lt: "j < unat (inner mat)" and n: "n = unat (inner mat) - Suc j"
    by simp_all
  let ?v = "real_of_int (rng p 0) / (real_of_int RM + 1) * (b - a) + a"
  let ?p1 = "store (cell mat i j) ?v (p\<lparr>rng := shift 1 (rng p)\<rparr>)"
  have step: "SampleUniform_row RM mat a b i j p = SampleUniform_row RM mat a b i (Suc j) ?p1"
    using lt by (subst SampleUniform_row.simps) (simp add: RandNext_shift)
  have len: "unat (inner mat) - j = Suc n"
    using Suc.hyps(2) by simp
  show ?case
    unfolding step Suc.hyps(1) [OF n] len uniform_values_Suc n [symmetric]
    by (simp add: store_def cell_Suc write_row_Cons shift_shift)
qed


lemma SampleUniform_rows_closed:
  "SampleUniform_rows RM mat a b i p =
     p\<lparr>memory := write_rows mat i
          (map (\<lambda>k. uniform_values RM a b (unat (inner mat)) (shift (k * unat (inner mat)) (rng p)))
             [0 ..< unat (outer mat) - i])
          (memory p),
       rng := shift ((unat (outer mat) - i) * unat (inner mat)) (rng p)\<rparr>"
proof (induction "unat (outer mat) - i" arbitrary: i p)
  case 0
  then have "\<not> i < unat (outer mat)" by simp
  with 0 show ?case
    by (subst SampleUniform_rows.simps) simp
next
  case (Suc n)
  then have lt: "i < unat (outer mat)" and n: "n = unat (outer mat) - Suc i"
    by simp_all
  have len: "unat (outer mat) - i = Suc n"
    using Suc.hyps(2) by simp
  let ?p1 = "SampleUniform_row RM mat a b i 0 p"
  have step: "SampleUniform_rows RM mat a b i p = SampleUniform_rows RM mat a b (Suc i) ?p1"
    using lt by (subst SampleUniform_rows.simps) simp
  have rng1: "rng ?p1 = shift (unat (inner mat)) (rng p)"
    and mem1: "memory ?p1 = write_row (cell mat i 0)
        (uniform_values RM a b (unat (inner mat)) (rng p)) (memory p)"
    by (simp_all add: SampleUniform_row_closed)
  have more: "process.more ?p1 = process.more p"
    by (simp add: SampleUniform_row_closed)
  have sh: "shift (k * unat (inner mat)) (shift (unat (inner mat)) (rng p))
      = shift (Suc k * unat (inner mat)) (rng p)" for k
    by (simp add: shift_shift add.commute)
  have sh': "shift (n * unat (inner mat)) (shift (unat (inner mat)) (rng p))
      = shift (Suc n * unat (inner mat)) (rng p)"
    by (rule sh)
  show ?case
    unfolding step Suc.hyps(1) [OF n] len n [symmetric] map_upt_shift rng1 mem1 sh sh'
    by (cases p) (simp add: SampleUniform_row_closed)
qed


lemma process_same [simp]: "p\<lparr>memory := memory p, rng := rng p\<rparr> = p"
  by (cases p) simp

lemma SampleGaussian_row_closed:
  assumes "even j"
  shows "SampleGaussian_row RM mat mu sigma i j gs p =
     (case draw_pairs RM ((unat (inner mat) - j + 1) div 2) (rng p) of
        None \<Rightarrow> None
      | Some (prs, g') \<Rightarrow>
          Some (p\<lparr>memory := write_row (cell mat i j)
                    (take (unat (inner mat) - j) (pair_values mu sigma prs)) (memory p),
                  rng := g'\<rparr>))"
  using assms
proof (induction "(unat (inner mat) - j + 1) div 2" arbitrary: j gs p)
  case 0
  then have "\<not> j < unat (inner mat)" by linarith
  moreover have "(unat (inner mat) - j + 1) div 2 = 0" using 0 by simp
  ultimately show ?case
    by (subst SampleGaussian_row.simps) simp
next
  case (Suc k)
  let ?n0 = "unat (inner mat)"
  from Suc.hyps(2) have lt: "j < ?n0" by linarith
  from Suc.hyps(2) have k: "(?n0 - j + 1) div 2 = Suc k" by simp
  show ?case
  proof (cases "SampleNormal2D RM (rng p)")
    case None
    then show ?thesis
      using lt Suc.prems k by (subst SampleGaussian_row.simps) simp
  next
    case (Some r)
    obtain g1 g2 ga where r: "r = ((g1, g2), ga)" by (metis prod.exhaust)
    let ?p1 = "store (cell mat i j) (mu + g1 * sigma) (p\<lparr>rng := ga\<rparr>)"
    have step1: "SampleGaussian_row RM mat mu sigma i j gs p
        = SampleGaussian_row RM mat mu sigma i (Suc j) (g1, g2) ?p1"
      using lt Suc.prems Some r by (subst SampleGaussian_row.simps) simp
    show ?thesis
    proof (cases "Suc j < ?n0")
      case False
      with lt have last: "?n0 - j = 1" by simp
      with k have k0: "k = 0" by simp
      have "SampleGaussian_row RM mat mu sigma i (Suc j) (g1, g2) ?p1 = Some ?p1"
        using False by (subst SampleGaussian_row.simps) simp
      then show ?thesis
        unfolding step1 k k0 last
        using Some r by (simp add: store_def write_row_def fun_eq_iff)
    next
      case True
      let ?p2 = "store (cell mat i (Suc j)) (mu + g2 * sigma) ?p1"
      have step2: "SampleGaussian_row RM mat mu sigma i (Suc j) (g1, g2) ?p1
          = SampleGaussian_row RM mat mu sigma i (Suc (Suc j)) (g1, g2) ?p2"
        using True Suc.prems by (subst SampleGaussian_row.simps) simp
      have k': "k = (?n0 - Suc (Suc j) + 1) div 2"
        using k True by linarith
      have ev: "even (Suc (Suc j))" using Suc.prems by simp
      have len: "?n0 - j = Suc (Suc (?n0 - Suc (Suc j)))"
        using True by simp
      have rng2: "rng ?p2 = ga" by (simp add: store_def)
      show ?thesis
        unfolding step1 step2 Suc.hyps(1) [OF k' ev] k k' [symmetric] rng2
        using Some r
        by (cases "draw_pairs RM k ga")
           (auto simp: len store_def cell_Suc write_row_Cons)
    qed
  qed
qed


lemma SampleGaussian_rows_closed:
  "SampleGaussian_rows RM mat mu sigma i p =
     (case rows_pairs RM ((unat (inner mat) + 1) div 2) (unat (outer mat) - i) (rng p) of
        None \<Rightarrow> None
      | Some (rows, g') \<Rightarrow>
          Some (p\<lparr>memory := write_rows mat i (map (row_values (unat (inner mat)) mu sigma) rows)
                    (memory p),
                  rng := g'\<rparr>))"
proof (induction "unat (outer mat) - i" arbitrary: i p)
  case 0
  then have "\<not> i < unat (outer mat)" by simp
  moreover have "unat (outer mat) - i = 0" using 0 by simp
  ultimately show ?case
    by (subst SampleGaussian_rows.simps) simp
next
  case (Suc n)
  let ?m = "(unat (inner mat) + 1) div 2"
  from Suc.hyps(2) have lt: "i < unat (outer mat)" and n: "n = unat (outer mat) - Suc i"
    by simp_all
  have len: "unat (outer mat) - i = Suc n"
    using Suc.hyps(2) by simp
  have row: "SampleGaussian_row RM mat mu sigma i 0 (0, 0) p =
     (case draw_pairs RM ?m (rng p) of
        None \<Rightarrow> None
      | Some (prs, g') \<Rightarrow>
          Some (p\<lparr>memory := write_row (cell mat i 0) (row_values (unat (inner mat)) mu sigma prs)
                    (memory p),
                  rng := g'\<rparr>))"
    by (subst SampleGaussian_row_closed) (simp_all add: row_values_def split: option.split)
  show ?case
  proof (cases "draw_pairs RM ?m (rng p)")
    case None
    then show ?thesis
      using lt by (subst SampleGaussian_rows.simps) (simp add: row len)
  next
    case (Some r)
    obtain prs g1 where r: "r = (prs, g1)" by (cases r)
    let ?p1 = "p\<lparr>memory := write_row (cell mat i 0) (row_values (unat (inner mat)) mu sigma prs)
                    (memory p), rng := g1\<rparr>"
    have step: "SampleGaussian_rows RM mat mu sigma i p
        = SampleGaussian_rows RM mat mu sigma (Suc i) ?p1"
      using lt Some r by (subst SampleGaussian_rows.simps) (simp add: row)
    show ?thesis
      unfolding step Suc.hyps(1) [OF n] len n [symmetric]
      using Some r
      by (cases "rows_pairs RM ?m n g1") auto
  qed
qed

subsection \<open>Rows written one after the other\<close>

lemma offsets_Nil [simp]: "offsets st i [] = {}"
  by (simp add: offsets_def)

lemma offsets_Cons:
  "offsets st i (vs # vss) = {i * st + j | j. j < length vs} \<union> offsets st (Suc i) vss"
proof (rule set_eqI, rule iffI)
  fix x assume "x \<in> offsets st i (vs # vss)"
  then obtain k j where x: "x = (i + k) * st + j" and k: "k < length (vs # vss)"
    and j: "j < length ((vs # vss) ! k)"
    unfolding offsets_def by blast
  show "x \<in> {i * st + j | j. j < length vs} \<union> offsets st (Suc i) vss"
  proof (cases k)
    case 0
    with x j show ?thesis by auto
  next
    case (Suc k')
    with x k j have "x = (Suc i + k') * st + j" "k' < length vss" "j < length (vss ! k')"
      by simp_all
    then have "x \<in> offsets st (Suc i) vss"
      unfolding offsets_def by blast
    then show ?thesis ..
  qed
next
  fix x assume "x \<in> {i * st + j | j. j < length vs} \<union> offsets st (Suc i) vss"
  then consider j where "x = i * st + j" "j < length vs"
    | k j where "x = (Suc i + k) * st + j" "k < length vss" "j < length (vss ! k)"
    unfolding offsets_def by blast
  then show "x \<in> offsets st i (vs # vss)"
  proof cases
    case 1
    then have "x = (i + 0) * st + j" "0 < length (vs # vss)" "j < length ((vs # vss) ! 0)"
      by simp_all
    then show ?thesis unfolding offsets_def by blast
  next
    case 2
    then have "x = (i + Suc k) * st + j" "Suc k < length (vs # vss)"
      "j < length ((vs # vss) ! Suc k)"
      by simp_all
    then show ?thesis unfolding offsets_def by blast
  qed
qed


lemma cell_0: "cell mat i 0 = mptr mat + i * unat (mstride mat)"
  by (simp add: cell_def)

lemma cell_offset: "cell mat i j = mptr mat + (i * unat (mstride mat) + j)"
  by (simp add: cell_def)

lemma write_rows_frame:
  "\<forall>d \<in> offsets (unat (mstride mat)) i vss. x \<noteq> mptr mat + d \<Longrightarrow>
   write_rows mat i vss m x = m x"
proof (induction vss arbitrary: i m)
  case Nil
  show ?case by simp
next
  case (Cons vs vss)
  from Cons.prems have later: "\<forall>d \<in> offsets (unat (mstride mat)) (Suc i) vss. x \<noteq> mptr mat + d"
    and here: "\<forall>j < length vs. x \<noteq> mptr mat + (i * unat (mstride mat) + j)"
    by (auto simp: offsets_Cons)
  have "write_row (cell mat i 0) vs m x = m x"
  proof (cases "cell mat i 0 \<le> x \<and> x < cell mat i 0 + length vs")
    case False
    then show ?thesis by (auto simp: write_row_def)
  next
    case True
    then have "x - cell mat i 0 < length vs" and "x = mptr mat + (i * unat (mstride mat) + (x - cell mat i 0))"
      by (auto simp: cell_0)
    with here show ?thesis by blast
  qed
  with Cons.IH [OF later] show ?case by simp
qed

lemma write_rows_agree:
  assumes "mstride mat1 = mstride mat2"
    and "\<forall>d \<in> S. m1 (mptr mat1 + d) = m2 (mptr mat2 + d)"
    and "d \<in> S \<union> offsets (unat (mstride mat1)) i vss"
  shows "write_rows mat1 i vss m1 (mptr mat1 + d) = write_rows mat2 i vss m2 (mptr mat2 + d)"
  using assms(2,3)
proof (induction vss arbitrary: i m1 m2 S)
  case Nil
  then show ?case by simp
next
  case (Cons vs vss)
  let ?st = "unat (mstride mat1)"
  let ?row = "{i * ?st + j | j. j < length vs}"
  let ?m1 = "write_row (cell mat1 i 0) vs m1" and ?m2 = "write_row (cell mat2 i 0) vs m2"
  have agree: "\<forall>d \<in> S \<union> ?row. ?m1 (mptr mat1 + d) = ?m2 (mptr mat2 + d)"
  proof
    fix d assume d: "d \<in> S \<union> ?row"
    show "?m1 (mptr mat1 + d) = ?m2 (mptr mat2 + d)"
    proof (cases "i * ?st \<le> d \<and> d < i * ?st + length vs")
      case True
      then show ?thesis
        using assms(1) by (simp add: write_row_def cell_0)
    next
      case False
      then have "d \<notin> ?row" by auto
      with d have "d \<in> S" by blast
      with Cons.prems(1) False show ?thesis
        using assms(1) by (auto simp: write_row_def cell_0)
    qed
  qed
  have "d \<in> (S \<union> ?row) \<union> offsets ?st (Suc i) vss"
    using Cons.prems(2) by (auto simp: offsets_Cons)
  from Cons.IH [OF agree this] show ?case by simp
qed

lemma write_rows_read:
  assumes "\<forall>vs \<in> set vss. length vs \<le> unat (mstride mat)"
    and "k < length vss" and "j < length (vss ! k)"
  shows "write_rows mat i vss m (cell mat (i + k) j) = vss ! k ! j"
  using assms
proof (induction vss arbitrary: i m k)
  case Nil
  then show ?case by simp
next
  case (Cons vs vss)
  let ?st = "unat (mstride mat)"
  show ?case
  proof (cases k)
    case 0
    with Cons.prems have j: "j < length vs" and le: "length vs \<le> ?st" by simp_all
    have "\<forall>d \<in> offsets ?st (Suc i) vss. cell mat i j \<noteq> mptr mat + d"
    proof
      fix d assume "d \<in> offsets ?st (Suc i) vss"
      then obtain k' j' where "d = (Suc i + k') * ?st + j'"
        unfolding offsets_def by blast
      then have "d \<ge> i * ?st + ?st" by (simp add: add_mult_distrib)
      with j le show "cell mat i j \<noteq> mptr mat + d"
        by (simp add: cell_def)
    qed
    then have "write_rows mat (Suc i) vss (write_row (cell mat i 0) vs m) (cell mat i j)
        = write_row (cell mat i 0) vs m (cell mat i j)"
      by (rule write_rows_frame)
    also have "\<dots> = vs ! j"
      using j by (simp add: write_row_def cell_def)
    finally show ?thesis using 0 by simp
  next
    case (Suc k')
    with Cons.prems have "\<forall>vs \<in> set vss. length vs \<le> ?st" "k' < length vss" "j < length (vss ! k')"
      by simp_all
    from Cons.IH [OF this, of "Suc i"] Suc show ?thesis by simp
  qed
qed

section \<open>Lists of rows\<close>

lemma write_rows_empty:
  "\<forall>vs \<in> set vss. vs = [] \<Longrightarrow> write_rows mat i vss m = m"
  by (induction vss arbitrary: i m) simp_all

lemma draw_pairs_length:
  "draw_pairs RM k g = Some (prs, g') \<Longrightarrow> length prs = k"
  by (induction k arbitrary: g prs) (auto split: option.splits prod.splits)

lemma rows_pairs_length:
  "rows_pairs RM m n g = Some (rows, g') \<Longrightarrow> length rows = n \<and> (\<forall>prs \<in> set rows. length prs = m)"
  by (induction n arbitrary: g rows)
     (auto split: option.splits prod.splits dest: draw_pairs_length)

lemma rows_pairs_none:
  "rows_pairs RM 0 n g = Some (replicate n [], g)"
  by (induction n) simp_all

lemma pair_values_length: "length (pair_values mu sigma prs) = 2 * length prs"
  by (induction mu sigma prs rule: pair_values.induct) simp_all

lemma pair_values_nth:
  "j < 2 * length prs \<Longrightarrow>
   pair_values mu sigma prs ! j =
     mu + (if even j then fst (prs ! (j div 2)) else snd (prs ! (j div 2))) * sigma"
proof (induction mu sigma prs arbitrary: j rule: pair_values.induct)
  case (1 mu sigma)
  then show ?case by simp
next
  case (2 mu sigma g1 g2 prs)
  show ?case
  proof (cases j)
    case 0
    then show ?thesis by simp
  next
    case (Suc j')
    show ?thesis
    proof (cases j')
      case 0
      with Suc show ?thesis by simp
    next
      case (Suc j'')
      with \<open>j = Suc j'\<close> "2.prems" have "j'' < 2 * length prs" by simp
      from "2.IH" [OF this] Suc \<open>j = Suc j'\<close> show ?thesis by simp
    qed
  qed
qed

lemma row_values_length:
  "n \<le> 2 * length prs \<Longrightarrow> length (row_values n mu sigma prs) = n"
  by (simp add: row_values_def pair_values_length)

lemma row_values_nth:
  "j < n \<Longrightarrow> n \<le> 2 * length prs \<Longrightarrow>
   row_values n mu sigma prs ! j =
     mu + (if even j then fst (prs ! (j div 2)) else snd (prs ! (j div 2))) * sigma"
  by (simp add: row_values_def pair_values_nth)

lemma pair_values_last:
  "prs \<noteq> [] \<Longrightarrow>
   pair_values mu sigma prs =
     take (2 * length prs - 1) (pair_values mu sigma prs) @ [mu + snd (last prs) * sigma]"
proof -
  assume ne: "prs \<noteq> []"
  let ?vs = "pair_values mu sigma prs"
  have len: "length ?vs = 2 * length prs" by (rule pair_values_length)
  with ne have "?vs \<noteq> []" by auto
  then have "?vs = butlast ?vs @ [last ?vs]" by simp
  moreover have "butlast ?vs = take (2 * length prs - 1) ?vs"
    by (simp add: butlast_conv_take len)
  moreover have "last ?vs = ?vs ! (2 * length prs - 1)"
    using \<open>?vs \<noteq> []\<close> by (simp add: last_conv_nth len)
  moreover have "?vs ! (2 * length prs - 1) = mu + snd (prs ! ((2 * length prs - 1) div 2)) * sigma"
    using ne by (subst pair_values_nth) auto
  moreover have "(2 * length prs - 1) div 2 = length prs - 1"
    using ne by (cases prs) auto
  moreover have "prs ! (length prs - 1) = last prs"
    using ne by (simp add: last_conv_nth)
  ultimately show ?thesis by simp
qed


section \<open>SampleUniform and SampleGaussian as a whole\<close>

lemma SampleUniform_closed:
  "SampleUniform RM dst a b p =
     p\<lparr>memory := write_rows (FlatTo2D dst) 0
          (map (\<lambda>k. uniform_values RM a b (unat (inner (FlatTo2D dst)))
                   (shift (k * unat (inner (FlatTo2D dst))) (rng p)))
             [0 ..< unat (outer (FlatTo2D dst))])
          (memory p),
       rng := shift (unat (outer (FlatTo2D dst)) * unat (inner (FlatTo2D dst))) (rng p)\<rparr>"
  by (simp add: SampleUniform_def SampleUniform_rows_closed)

lemma SampleGaussian_closed:
  "SampleGaussian RM dst mu sigma p =
     (case rows_pairs RM ((unat (inner (FlatTo2D dst)) + 1) div 2) (unat (outer (FlatTo2D dst)))
             (rng p) of
        None \<Rightarrow> None
      | Some (rows, g') \<Rightarrow>
          Some (p\<lparr>memory := write_rows (FlatTo2D dst) 0
                    (map (row_values (unat (inner (FlatTo2D dst))) mu sigma) rows) (memory p),
                  rng := g'\<rparr>))"
  by (simp add: SampleGaussian_def SampleGaussian_rows_closed)

lemma uniform_values_length [simp]: "length (uniform_values RM a b n g) = n"
  by (simp add: uniform_values_def)

lemma offsets_in_cells:
  assumes "length vss \<le> unat (outer mat)" and "\<forall>vs \<in> set vss. length vs \<le> unat (inner mat)"
    and "d \<in> offsets (unat (mstride mat)) 0 vss"
  shows "mptr mat + d \<in> cells mat"
proof -
  from assms(3) obtain k j where d: "d = k * unat (mstride mat) + j"
    and k: "k < length vss" and j: "j < length (vss ! k)"
    unfolding offsets_def by auto
  from k assms(2) have "length (vss ! k) \<le> unat (inner mat)" by simp
  with j have "j < unat (inner mat)" by simp
  moreover from k assms(1) have "k < unat (outer mat)" by simp
  ultimately show ?thesis
    unfolding cells_def d cell_def by (auto simp: add.assoc)
qed

lemma write_rows_outside_cells:
  assumes "length vss \<le> unat (outer mat)" and "\<forall>vs \<in> set vss. length vs \<le> unat (inner mat)"
    and "x \<notin> cells mat"
  shows "write_rows mat 0 vss m x = m x"
proof (rule write_rows_frame, rule ballI)
  fix d assume "d \<in> offsets (unat (mstride mat)) 0 vss"
  from offsets_in_cells [OF assms(1,2) this] assms(3) show "x \<noteq> mptr mat + d" by auto
qed

lemma SampleUniform_outside_cells:
  "x \<notin> cells (FlatTo2D dst) \<Longrightarrow> memory (SampleUniform RM dst a b p) x = memory p x"
  by (simp add: SampleUniform_closed write_rows_outside_cells)

lemma SampleGaussian_outside_cells:
  assumes "SampleGaussian RM dst mu sigma p = Some p'" and "x \<notin> cells (FlatTo2D dst)"
  shows "memory p' x = memory p x"
proof -
  let ?n0 = "unat (inner (FlatTo2D dst))"
  from assms(1) obtain rows g' where
    rows: "rows_pairs RM ((?n0 + 1) div 2) (unat (outer (FlatTo2D dst))) (rng p) = Some (rows, g')"
    and p': "p' = p\<lparr>memory := write_rows (FlatTo2D dst) 0 (map (row_values ?n0 mu sigma) rows)
        (memory p), rng := g'\<rparr>"
    by (auto simp: SampleGaussian_closed split: option.splits)
  from rows_pairs_length [OF rows]
  have "length (map (row_values ?n0 mu sigma) rows) \<le> unat (outer (FlatTo2D dst))"
    by simp
  moreover have "\<forall>vs \<in> set (map (row_values ?n0 mu sigma) rows). length vs \<le> ?n0"
    by (simp add: row_values_def)
  ultimately show ?thesis
    unfolding p' using assms(2) by (simp add: write_rows_outside_cells)
qed

text \<open>
  Claim C10. If the flattened destination has a zero outer extent or a zero inner extent,
  \<^verbatim>\<open>SampleUniform\<close> and \<^verbatim>\<open>SampleGaussian\<close> return with the memory and the generator as they
  were: nothing is written and no draw is consumed.
\<close>

theorem Sample_zero_extent:
  assumes "inner (FlatTo2D dst) = 0 \<or> outer (FlatTo2D dst) = 0"
  shows "SampleUniform RAND_MAX dst a b p = p \<and> SampleGaussian RAND_MAX dst mu sigma p = Some p"
  using assms
proof
  assume "outer (FlatTo2D dst) = 0"
  then show ?thesis
    by (simp add: SampleUniform_closed SampleGaussian_closed)
next
  assume inner: "inner (FlatTo2D dst) = 0"
  have "SampleUniform RAND_MAX dst a b p = p"
    by (simp add: SampleUniform_closed inner uniform_values_def write_rows_empty)
  moreover have "SampleGaussian RAND_MAX dst mu sigma p = Some p"
    by (simp add: SampleGaussian_closed inner rows_pairs_none row_values_def write_rows_empty)
  ultimately show ?thesis ..
qed

text \<open>A tensor with inner extent 0 and outer extent 5, and a tensor with inner extent 3
  and outer extent 2 * 0 (32-bit \<^verbatim>\<open>index_t\<close>).\<close>

theorem Sample_zero_extent_witness:
  "SampleUniform 32767 \<lparr>dptr = 8, shape = \<lparr>shape0 = 0 :: 32 word, rest = [5], stride = 0\<rparr>\<rparr> 0 1
     \<lparr>memory = (\<lambda>x. 7), rng = (\<lambda>n. 16384)\<rparr> = \<lparr>memory = (\<lambda>x. 7), rng = (\<lambda>n. 16384)\<rparr>
   \<and> SampleGaussian 32767 \<lparr>dptr = 8, shape = \<lparr>shape0 = 3 :: 32 word, rest = [2, 0], stride = 4\<rparr>\<rparr> 0 1
     \<lparr>memory = (\<lambda>x. 7), rng = (\<lambda>n. 16384)\<rparr> = Some \<lparr>memory = (\<lambda>x. 7), rng = (\<lambda>n. 16384)\<rparr>"
proof -
  let ?p = "\<lparr>memory = (\<lambda>x::nat. 7::real), rng = (\<lambda>n::nat. 16384::int)\<rparr>"
  let ?t1 = "\<lparr>dptr = 8, shape = \<lparr>shape0 = 0 :: 32 word, rest = [5], stride = 0\<rparr>\<rparr>"
  let ?t2 = "\<lparr>dptr = 8, shape = \<lparr>shape0 = 3 :: 32 word, rest = [2, 0], stride = 4\<rparr>\<rparr>"
  have 1: "inner (FlatTo2D ?t1) = 0 \<or> outer (FlatTo2D ?t1) = 0"
    by (simp add: FlatTo2D_def)
  have 2: "inner (FlatTo2D ?t2) = 0 \<or> outer (FlatTo2D ?t2) = 0"
    by (simp add: FlatTo2D_def)
  from Sample_zero_extent [OF 1, of 32767 0 1 ?p] Sample_zero_extent [OF 2, of 32767 0 1 ?p 0 1]
  show ?thesis by blast
qed


lemma buffer_contents_eq:
  "\<forall>j < unat (shape0 (shape (buffer this))). memory p' (dptr (buffer this) + j)
      = memory p (dptr (buffer this) + j) \<Longrightarrow>
   buffer_contents this p' = buffer_contents this p"
  by (simp add: buffer_contents_def)

text \<open>
  Claim C7, as amended. \<^verbatim>\<open>SampleUniform\<close> writes to cells of the destination only: every
  other cell of the memory keeps its value. So the contents of the scratch buffer are
  unchanged whenever no cell of the buffer is a cell of the destination.
\<close>

theorem SampleUniform_frame:
  "(x \<notin> cells (FlatTo2D dst) \<longrightarrow> memory (SampleUniform RAND_MAX dst a b p) x = memory p x)
   \<and> ((\<forall>j < unat (shape0 (shape (buffer this))). dptr (buffer this) + j \<notin> cells (FlatTo2D dst))
        \<longrightarrow> buffer_contents this (SampleUniform RAND_MAX dst a b p) = buffer_contents this p)"
proof (intro conjI impI)
  assume "x \<notin> cells (FlatTo2D dst)"
  then show "memory (SampleUniform RAND_MAX dst a b p) x = memory p x"
    by (rule SampleUniform_outside_cells)
next
  assume "\<forall>j < unat (shape0 (shape (buffer this))). dptr (buffer this) + j \<notin> cells (FlatTo2D dst)"
  then show "buffer_contents this (SampleUniform RAND_MAX dst a b p) = buffer_contents this p"
    by (intro buffer_contents_eq) (simp add: SampleUniform_outside_cells)
qed

lemma cells_row:
  "outer mat = 1 \<Longrightarrow> cells mat = {mptr mat ..< mptr mat + unat (inner mat)}"
proof -
  assume "outer mat = 1"
  then have "unat (outer mat) = 1" by simp
  then have "cells mat = {mptr mat + j | j. j < unat (inner mat)}"
    unfolding cells_def cell_def by auto
  also have "\<dots> = {mptr mat ..< mptr mat + unat (inner mat)}"
    by (auto intro: le_Suc_ex simp: less_diff_conv2) (metis add_diff_inverse_nat le_add_diff_inverse nat_add_left_cancel_less not_less)
  finally show ?thesis .
qed


lemma SampleUniform_read:
  assumes "unat (inner (FlatTo2D dst)) \<le> unat (mstride (FlatTo2D dst))"
    and "i < unat (outer (FlatTo2D dst))" and "j < unat (inner (FlatTo2D dst))"
  shows "memory (SampleUniform RM dst a b p) (cell (FlatTo2D dst) i j) =
     real_of_int (rng p (i * unat (inner (FlatTo2D dst)) + j)) / (real_of_int RM + 1) * (b - a) + a"
proof -
  let ?mat = "FlatTo2D dst"
  let ?n0 = "unat (inner ?mat)"
  let ?vss = "map (\<lambda>k. uniform_values RM a b ?n0 (shift (k * ?n0) (rng p))) [0 ..< unat (outer ?mat)]"
  have "write_rows ?mat 0 ?vss (memory p) (cell ?mat (0 + i) j) = ?vss ! i ! j"
    using assms by (intro write_rows_read) auto
  also have "\<dots> = real_of_int (rng p (i * ?n0 + j)) / (real_of_int RM + 1) * (b - a) + a"
    using assms(2,3) by (simp add: uniform_values_def shift_def add.commute)
  finally show ?thesis
    by (simp add: SampleUniform_closed)
qed

lemma contents_nth:
  "i < unat (outer (FlatTo2D t)) \<Longrightarrow> j < unat (inner (FlatTo2D t)) \<Longrightarrow>
   contents p t ! i ! j = memory p (cell (FlatTo2D t) i j)"
  by (simp add: contents_def Let_def)

lemma contents_length:
  "length (contents p t) = unat (outer (FlatTo2D t))"
  "i < unat (outer (FlatTo2D t)) \<Longrightarrow> length (contents p t ! i) = unat (inner (FlatTo2D t))"
  by (simp_all add: contents_def Let_def)

text \<open>Claim C7 as stated fails for the call that \<^verbatim>\<open>uniform(shape)\<close> makes. The temporary for
  two scalars is the view that GetTemp returns, at the base of the scratch buffer: the
  call of \<^verbatim>\<open>SampleUniform\<close> on it changes the buffer's first cell from 0 to 1/2.\<close>

theorem SampleUniform_on_temp_counterexample:
  "GetTemp \<lparr>buffer = \<lparr>dptr = 0, shape = \<lparr>shape0 = 16, rest = [], stride = 16\<rparr>\<rparr>\<rparr>
      \<lparr>shape0 = 2 :: 32 word, rest = [], stride = 0\<rparr>
     = Inr \<lparr>dptr = 0, shape = \<lparr>shape0 = 2, rest = [], stride = 4\<rparr>\<rparr>
   \<and> hd (buffer_contents \<lparr>buffer = \<lparr>dptr = 0, shape = \<lparr>shape0 = 16 :: 32 word, rest = [], stride = 16\<rparr>\<rparr>\<rparr>
        \<lparr>memory = (\<lambda>x. 0), rng = (\<lambda>n. 16384)\<rparr>) = 0
   \<and> hd (buffer_contents \<lparr>buffer = \<lparr>dptr = 0, shape = \<lparr>shape0 = 16 :: 32 word, rest = [], stride = 16\<rparr>\<rparr>\<rparr>
        (SampleUniform 32767 \<lparr>dptr = 0, shape = \<lparr>shape0 = 2 :: 32 word, rest = [], stride = 4\<rparr>\<rparr> 0 1
           \<lparr>memory = (\<lambda>x. 0), rng = (\<lambda>n. 16384)\<rparr>)) = 1 / 2"
proof -
  let ?eng = "\<lparr>buffer = \<lparr>dptr = 0, shape = \<lparr>shape0 = 16 :: 32 word, rest = [], stride = 16\<rparr>\<rparr>\<rparr>"
  let ?temp = "\<lparr>dptr = 0, shape = \<lparr>shape0 = 2 :: 32 word, rest = [], stride = 4\<rparr>\<rparr>"
  let ?p = "\<lparr>memory = (\<lambda>x::nat. 0::real), rng = (\<lambda>n::nat. 16384::int)\<rparr>"
  have get: "GetTemp ?eng \<lparr>shape0 = 2 :: 32 word, rest = [], stride = 0\<rparr> = Inr ?temp"
    by (simp add: GetTemp_def MSize_def Let_def)
  have hd: "hd (buffer_contents ?eng q) = memory q 0" for q
    by (simp add: buffer_contents_def upt_conv_Cons)
  have "memory (SampleUniform 32767 ?temp 0 1 ?p) (cell (FlatTo2D ?temp) 0 0) =
      real_of_int (rng ?p (0 * unat (inner (FlatTo2D ?temp)) + 0)) / (real_of_int 32767 + 1) * (1 - 0) + 0"
    by (rule SampleUniform_read) (simp_all add: FlatTo2D_def)
  then have "memory (SampleUniform 32767 ?temp 0 1 ?p) 0 = 1 / 2"
    by (simp add: FlatTo2D_def cell_def)
  with get show ?thesis
    by (simp add: hd)
qed

theorem SampleUniform_frame_witness:
  "memory (SampleUniform 32767 \<lparr>dptr = 100, shape = \<lparr>shape0 = 2 :: 32 word, rest = [], stride = 2\<rparr>\<rparr> 0 1
      \<lparr>memory = (\<lambda>x. 0), rng = (\<lambda>n. 16384)\<rparr>) 5 = 0
   \<and> memory (SampleUniform 32767 \<lparr>dptr = 100, shape = \<lparr>shape0 = 2 :: 32 word, rest = [], stride = 2\<rparr>\<rparr> 0 1
      \<lparr>memory = (\<lambda>x. 0), rng = (\<lambda>n. 16384)\<rparr>) 100 = 1 / 2
   \<and> buffer_contents \<lparr>buffer = \<lparr>dptr = 0, shape = \<lparr>shape0 = 16 :: 32 word, rest = [], stride = 16\<rparr>\<rparr>\<rparr>
        (SampleUniform 32767 \<lparr>dptr = 100, shape = \<lparr>shape0 = 2 :: 32 word, rest = [], stride = 2\<rparr>\<rparr> 0 1
           \<lparr>memory = (\<lambda>x. 0), rng = (\<lambda>n. 16384)\<rparr>)
     = buffer_contents \<lparr>buffer = \<lparr>dptr = 0, shape = \<lparr>shape0 = 16 :: 32 word, rest = [], stride = 16\<rparr>\<rparr>\<rparr>
        \<lparr>memory = (\<lambda>x. 0), rng = (\<lambda>n. 16384)\<rparr>"
proof -
  let ?eng = "\<lparr>buffer = \<lparr>dptr = 0, shape = \<lparr>shape0 = 16 :: 32 word, rest = [], stride = 16\<rparr>\<rparr>\<rparr>"
  let ?dst = "\<lparr>dptr = 100, shape = \<lparr>shape0 = 2 :: 32 word, rest = [], stride = 2\<rparr>\<rparr>"
  let ?p = "\<lparr>memory = (\<lambda>x::nat. 0::real), rng = (\<lambda>n::nat. 16384::int)\<rparr>"
  have cells: "cells (FlatTo2D ?dst) = {100 ..< 102}"
    by (subst cells_row) (simp_all add: FlatTo2D_def)
  note frame = SampleUniform_frame [of _ ?dst 32767 0 1 ?p ?eng]
  have out: "(5::nat) \<notin> cells (FlatTo2D ?dst)"
    by (simp add: cells)
  have apart: "\<forall>j < unat (shape0 (shape (buffer ?eng))). dptr (buffer ?eng) + j \<notin> cells (FlatTo2D ?dst)"
    by (simp add: cells)
  have "memory (SampleUniform 32767 ?dst 0 1 ?p) (cell (FlatTo2D ?dst) 0 0) =
      real_of_int (rng ?p (0 * unat (inner (FlatTo2D ?dst)) + 0)) / (real_of_int 32767 + 1) * (1 - 0) + 0"
    by (rule SampleUniform_read) (simp_all add: FlatTo2D_def)
  then have "memory (SampleUniform 32767 ?dst 0 1 ?p) 100 = 1 / 2"
    by (simp add: FlatTo2D_def cell_def)
  moreover from frame [of 5] out have "memory (SampleUniform 32767 ?dst 0 1 ?p) 5 = memory ?p 5"
    by blast
  moreover from frame [of 5] apart
  have "buffer_contents ?eng (SampleUniform 32767 ?dst 0 1 ?p) = buffer_contents ?eng ?p"
    by blast
  ultimately show ?thesis by simp
qed


lemma SampleGaussian_read:
  assumes rows: "rows_pairs RM ((unat (inner (FlatTo2D dst)) + 1) div 2) (unat (outer (FlatTo2D dst)))
        (rng p) = Some (rows, g')"
    and apart: "unat (inner (FlatTo2D dst)) \<le> unat (mstride (FlatTo2D dst))"
    and i: "i < unat (outer (FlatTo2D dst))" and j: "j < unat (inner (FlatTo2D dst))"
  shows "\<exists>p'. SampleGaussian RM dst mu sigma p = Some p' \<and> rng p' = g'
     \<and> memory p' (cell (FlatTo2D dst) i j) =
         mu + (if even j then fst (rows ! i ! (j div 2)) else snd (rows ! i ! (j div 2))) * sigma
     \<and> (\<forall>x. x \<notin> cells (FlatTo2D dst) \<longrightarrow> memory p' x = memory p x)"
proof -
  let ?mat = "FlatTo2D dst"
  let ?n0 = "unat (inner ?mat)"
  let ?vss = "map (row_values ?n0 mu sigma) rows"
  let ?p' = "p\<lparr>memory := write_rows ?mat 0 ?vss (memory p), rng := g'\<rparr>"
  have run: "SampleGaussian RM dst mu sigma p = Some ?p'"
    by (subst SampleGaussian_closed) (simp only: rows option.case prod.case)
  from rows_pairs_length [OF rows]
  have len: "length rows = unat (outer ?mat)" and each: "\<forall>prs \<in> set rows. length prs = (?n0 + 1) div 2"
    by simp_all
  from i len each have row: "length (rows ! i) = (?n0 + 1) div 2" by simp
  then have enough: "?n0 \<le> 2 * length (rows ! i)" by linarith
  have lens: "\<forall>vs \<in> set ?vss. length vs \<le> unat (mstride ?mat)"
    using apart by (auto simp: row_values_def)
  have "write_rows ?mat 0 ?vss (memory p) (cell ?mat (0 + i) j) = ?vss ! i ! j"
    using i j len enough by (intro write_rows_read [OF lens]) (simp_all add: row_values_length)
  also have "\<dots> = mu + (if even j then fst (rows ! i ! (j div 2)) else snd (rows ! i ! (j div 2))) * sigma"
    using i len j enough by (simp add: row_values_nth)
  finally have "memory ?p' (cell ?mat i j) =
      mu + (if even j then fst (rows ! i ! (j div 2)) else snd (rows ! i ! (j div 2))) * sigma"
    by simp
  moreover have "\<forall>x. x \<notin> cells ?mat \<longrightarrow> memory ?p' x = memory p x"
    using SampleGaussian_outside_cells [OF run] by blast
  ultimately show ?thesis
    using run by simp
qed

text \<open>
  Claim C5. \<^verbatim>\<open>SampleGaussian\<close> draws, for each row in turn, the pairs of
  \<open>(n + 1) div 2\<close> fresh calls of \<^verbatim>\<open>SampleNormal2D\<close>, where \<open>n\<close> is the inner extent, and
  writes the first \<open>n\<close> of the scalars \<open>mu + g1 * sigma\<close>, \<open>mu + g2 * sigma\<close> of these pairs
  into the row: it does not return exactly when one of the calls of \<^verbatim>\<open>SampleNormal2D\<close> does
  not. Where the rows do not overlap (inner extent at most the stride), the scalar at
  an even index \<open>j\<close> is \<open>mu + g1 * sigma\<close> for the first element of pair \<open>j div 2\<close> of the
  row and the scalar at an odd index is \<open>mu + g2 * sigma\<close> for the second element of the
  same pair, and no cell outside the destination is written. For an odd \<open>n\<close> the scalars
  of the pairs are the \<open>n\<close> written ones followed by \<open>mu + g2 * sigma\<close> of the last pair,
  which is written nowhere.
\<close>

theorem SampleGaussian_pairs:
  "SampleGaussian RAND_MAX dst mu sigma p =
     (case rows_pairs RAND_MAX ((unat (inner (FlatTo2D dst)) + 1) div 2)
             (unat (outer (FlatTo2D dst))) (rng p) of
        None \<Rightarrow> None
      | Some (rows, g') \<Rightarrow>
          Some (p\<lparr>memory := write_rows (FlatTo2D dst) 0
                    (map (row_values (unat (inner (FlatTo2D dst))) mu sigma) rows) (memory p),
                  rng := g'\<rparr>))
   \<and> (\<forall>rows g' i j.
        rows_pairs RAND_MAX ((unat (inner (FlatTo2D dst)) + 1) div 2)
            (unat (outer (FlatTo2D dst))) (rng p) = Some (rows, g')
        \<and> unat (inner (FlatTo2D dst)) \<le> unat (mstride (FlatTo2D dst))
        \<and> i < unat (outer (FlatTo2D dst)) \<and> j < unat (inner (FlatTo2D dst)) \<longrightarrow>
        (\<exists>p'. SampleGaussian RAND_MAX dst mu sigma p = Some p' \<and> rng p' = g'
           \<and> memory p' (cell (FlatTo2D dst) i j) =
               mu + (if even j then fst (rows ! i ! (j div 2))
                     else snd (rows ! i ! (j div 2))) * sigma
           \<and> (\<forall>x. x \<notin> cells (FlatTo2D dst) \<longrightarrow> memory p' x = memory p x)))
   \<and> (\<forall>prs. odd (unat (inner (FlatTo2D dst)))
        \<and> length prs = (unat (inner (FlatTo2D dst)) + 1) div 2 \<longrightarrow>
        pair_values mu sigma prs =
          row_values (unat (inner (FlatTo2D dst))) mu sigma prs @ [mu + snd (last prs) * sigma])"
proof (intro conjI allI impI)
  show "SampleGaussian RAND_MAX dst mu sigma p =
     (case rows_pairs RAND_MAX ((unat (inner (FlatTo2D dst)) + 1) div 2)
             (unat (outer (FlatTo2D dst))) (rng p) of
        None \<Rightarrow> None
      | Some (rows, g') \<Rightarrow>
          Some (p\<lparr>memory := write_rows (FlatTo2D dst) 0
                    (map (row_values (unat (inner (FlatTo2D dst))) mu sigma) rows) (memory p),
                  rng := g'\<rparr>))"
    by (rule SampleGaussian_closed)
next
  fix rows g' i j
  assume "rows_pairs RAND_MAX ((unat (inner (FlatTo2D dst)) + 1) div 2)
            (unat (outer (FlatTo2D dst))) (rng p) = Some (rows, g')
        \<and> unat (inner (FlatTo2D dst)) \<le> unat (mstride (FlatTo2D dst))
        \<and> i < unat (outer (FlatTo2D dst)) \<and> j < unat (inner (FlatTo2D dst))"
  then show "\<exists>p'. SampleGaussian RAND_MAX dst mu sigma p = Some p' \<and> rng p' = g'
           \<and> memory p' (cell (FlatTo2D dst) i j) =
               mu + (if even j then fst (rows ! i ! (j div 2))
                     else snd (rows ! i ! (j div 2))) * sigma
           \<and> (\<forall>x. x \<notin> cells (FlatTo2D dst) \<longrightarrow> memory p' x = memory p x)"
    by (intro SampleGaussian_read) simp_all
next
  fix prs :: "(real \<times> real) list"
  let ?n0 = "unat (inner (FlatTo2D dst))"
  assume a: "odd ?n0 \<and> length prs = (?n0 + 1) div 2"
  then have n0: "?n0 = 2 * length prs - 1" and ne: "prs \<noteq> []"
    by (auto elim!: oddE)
  show "pair_values mu sigma prs = row_values ?n0 mu sigma prs @ [mu + snd (last prs) * sigma]"
    unfolding row_values_def n0 by (rule pair_values_last [OF ne])
qed


lemma SampleNormal2D_example:
  "SampleNormal2D 32767 (\<lambda>n. if even n then 8191 else 16383)
   = Some ((- (16385 / 32769) * sqrt (- 2 * ln (268468226 / 1073807361) / (268468226 / 1073807361)),
            - (1 / 32769) * sqrt (- 2 * ln (268468226 / 1073807361) / (268468226 / 1073807361))),
       (\<lambda>n. if even n then 8191 else 16383))"
proof -
  let ?g = "\<lambda>n::nat. if even n then 8191 else (16383::int)"
  have acc: "\<not> BoxMuller_rejected 32767 ?g 0"
    by (simp add: BoxMuller_rejected_def BoxMuller_xys_def BoxMuller_uniform_def Let_def
        power2_eq_square)
  have xys: "BoxMuller_xys 32767 ?g 0 = (- (16385 / 32769), - (1 / 32769), 268468226 / 1073807361)"
    by (simp add: BoxMuller_xys_def BoxMuller_uniform_def Let_def power2_eq_square)
  have same: "shift 2 ?g = ?g"
    by (simp add: shift_def)
  have "SampleNormal2D_loop 32767 ?g = Some (BoxMuller_xys 32767 ?g 0, shift 2 ?g)"
    using acc by (subst SampleNormal2D_loop_step) simp
  then have loop: "SampleNormal2D_loop 32767 ?g
      = Some ((- (16385 / 32769), - (1 / 32769), 268468226 / 1073807361), ?g)"
    by (simp only: xys same)
  show ?thesis
    by (simp only: SampleNormal2D_def loop option.case prod.case Let_def)
qed

theorem SampleGaussian_pairs_witness:
  "let g = (\<lambda>n. if even n then 8191 else 16383);
       t = sqrt (- 2 * ln (268468226 / 1073807361) / (268468226 / 1073807361));
       dst = \<lparr>dptr = 0, shape = \<lparr>shape0 = 3 :: 32 word, rest = [], stride = 4\<rparr>\<rparr>
   in \<exists>p'. SampleGaussian 32767 dst 5 2 \<lparr>memory = (\<lambda>x. 0), rng = g\<rparr> = Some p'
        \<and> rng p' = g
        \<and> memory p' 0 = 5 + - (16385 / 32769) * t * 2
        \<and> memory p' 1 = 5 + - (1 / 32769) * t * 2
        \<and> memory p' 2 = 5 + - (16385 / 32769) * t * 2
        \<and> memory p' 3 = 0"
proof -
  let ?g = "\<lambda>n::nat. if even n then 8191 else (16383::int)"
  define X :: real
    where "X = - (16385 / 32769) * sqrt (- 2 * ln (268468226 / 1073807361) / (268468226 / 1073807361))"
  define Y :: real
    where "Y = - (1 / 32769) * sqrt (- 2 * ln (268468226 / 1073807361) / (268468226 / 1073807361))"
  let ?dst = "\<lparr>dptr = 0, shape = \<lparr>shape0 = 3 :: 32 word, rest = [], stride = 4\<rparr>\<rparr>"
  let ?p = "\<lparr>memory = (\<lambda>x::nat. 0::real), rng = ?g\<rparr>"
  let ?rows = "[[(X, Y), (X, Y)]]"
  have pair: "SampleNormal2D 32767 ?g = Some ((X, Y), ?g)"
    unfolding X_def Y_def by (rule SampleNormal2D_example)
  have n0: "unat (inner (FlatTo2D ?dst)) = 3" and n1: "unat (outer (FlatTo2D ?dst)) = 1"
    and st: "unat (mstride (FlatTo2D ?dst)) = 4"
    by (simp_all add: FlatTo2D_def)
  have two: "(unat (inner (FlatTo2D ?dst)) + 1) div 2 = Suc (Suc 0)"
    and one: "unat (outer (FlatTo2D ?dst)) = Suc 0"
    by (simp_all add: n0 n1)
  have rows: "rows_pairs 32767 ((unat (inner (FlatTo2D ?dst)) + 1) div 2)
      (unat (outer (FlatTo2D ?dst))) (rng ?p) = Some (?rows, ?g)"
    unfolding two one by (simp add: pair)
  have cells: "cells (FlatTo2D ?dst) = {0 ..< 3}"
    by (subst cells_row) (simp_all add: FlatTo2D_def)
  have apart: "unat (inner (FlatTo2D ?dst)) \<le> unat (mstride (FlatTo2D ?dst))"
    by (simp add: n0 st)
  have i: "0 < unat (outer (FlatTo2D ?dst))" by (simp add: n1)
  note inst = SampleGaussian_pairs [of 32767 ?dst 5 2 ?p, THEN conjunct2, THEN conjunct1,
      rule_format, of ?rows ?g 0, OF conjI [OF rows conjI [OF apart conjI [OF i]]]]
  have j0: "0 < unat (inner (FlatTo2D ?dst))" and j1: "1 < unat (inner (FlatTo2D ?dst))"
    and j2: "2 < unat (inner (FlatTo2D ?dst))"
    by (simp_all add: n0)
  have c: "cell (FlatTo2D ?dst) 0 j = j" for j
    by (simp add: cell_def FlatTo2D_def)
  from inst [OF j0] obtain p' where run: "SampleGaussian 32767 ?dst 5 2 ?p = Some p'"
    and g: "rng p' = ?g" and 0: "memory p' 0 = 5 + X * 2"
    and out: "\<forall>x. x \<notin> cells (FlatTo2D ?dst) \<longrightarrow> memory p' x = memory ?p x"
    unfolding c by auto
  from inst [OF j1] run have 1: "memory p' 1 = 5 + Y * 2"
    unfolding c by auto
  from inst [OF j2] run have 2: "memory p' 2 = 5 + X * 2"
    unfolding c by (auto simp: numeral_2_eq_2)
  from out have 3: "memory p' 3 = 0"
    by (simp add: cells)
  from run g 0 1 2 3 show ?thesis
    unfolding Let_def X_def Y_def by blast
qed

section \<open>Contents of a destination after a call\<close>

lemma contents_eqI:
  assumes "shape t1 = shape t2"
    and "\<And>i j. i < unat (outer (FlatTo2D t1)) \<Longrightarrow> j < unat (inner (FlatTo2D t1)) \<Longrightarrow>
      memory p1 (cell (FlatTo2D t1) i j) = memory p2 (cell (FlatTo2D t2) i j)"
  shows "contents p1 t1 = contents p2 t2"
proof -
  have same: "inner (FlatTo2D t1) = inner (FlatTo2D t2)" "outer (FlatTo2D t1) = outer (FlatTo2D t2)"
    using assms(1) by (simp_all add: FlatTo2D_def)
  show ?thesis
    unfolding contents_def Let_def same [symmetric]
    by (intro map_cong refl) (simp add: assms(2))
qed

lemma write_rows_same_contents:
  assumes shape: "shape t1 = shape t2"
    and len: "length vss = unat (outer (FlatTo2D t1))"
    and each: "\<forall>vs \<in> set vss. length vs = unat (inner (FlatTo2D t1))"
    and m1: "memory q1 = write_rows (FlatTo2D t1) 0 vss m1"
    and m2: "memory q2 = write_rows (FlatTo2D t2) 0 vss m2"
  shows "contents q1 t1 = contents q2 t2"
proof (rule contents_eqI [OF shape])
  fix i j assume i: "i < unat (outer (FlatTo2D t1))" and j: "j < unat (inner (FlatTo2D t1))"
  let ?st = "unat (mstride (FlatTo2D t1))"
  have st: "mstride (FlatTo2D t1) = mstride (FlatTo2D t2)"
    using shape by (simp add: FlatTo2D_def)
  have "length (vss ! i) = unat (inner (FlatTo2D t1))"
    using i len each by simp
  with i j len have "\<exists>k j'. (0 + i) * ?st + j = (0 + k) * ?st + j' \<and> k < length vss
      \<and> j' < length (vss ! k)"
    by (intro exI [of _ i] exI [of _ j]) simp
  then have "(0 + i) * ?st + j \<in> offsets ?st 0 vss"
    unfolding offsets_def by blast
  then have "i * ?st + j \<in> {} \<union> offsets ?st 0 vss" by simp
  from write_rows_agree [OF st _ this, of m1 m2]
  have "write_rows (FlatTo2D t1) 0 vss m1 (mptr (FlatTo2D t1) + (i * ?st + j))
      = write_rows (FlatTo2D t2) 0 vss m2 (mptr (FlatTo2D t2) + (i * ?st + j))"
    by simp
  then show "memory q1 (cell (FlatTo2D t1) i j) = memory q2 (cell (FlatTo2D t2) i j)"
    by (simp add: m1 m2 cell_offset st)
qed

lemma SampleUniform_deterministic:
  assumes "shape t1 = shape t2" and "rng p1 = rng p2"
  shows "contents (SampleUniform RM t1 a b p1) t1 = contents (SampleUniform RM t2 a b p2) t2
     \<and> rng (SampleUniform RM t1 a b p1) = rng (SampleUniform RM t2 a b p2)"
proof -
  have same: "inner (FlatTo2D t1) = inner (FlatTo2D t2)" "outer (FlatTo2D t1) = outer (FlatTo2D t2)"
    using assms(1) by (simp_all add: FlatTo2D_def)
  let ?n0 = "unat (inner (FlatTo2D t1))"
  let ?vss = "map (\<lambda>k. uniform_values RM a b ?n0 (shift (k * ?n0) (rng p1)))
      [0 ..< unat (outer (FlatTo2D t1))]"
  have "contents (SampleUniform RM t1 a b p1) t1 = contents (SampleUniform RM t2 a b p2) t2"
    by (rule write_rows_same_contents [OF assms(1), of ?vss _ "memory p1" _ "memory p2"])
       (simp_all add: SampleUniform_closed same assms(2))
  moreover have "rng (SampleUniform RM t1 a b p1) = rng (SampleUniform RM t2 a b p2)"
    by (simp add: SampleUniform_closed same assms(2))
  ultimately show ?thesis ..
qed

lemma SampleGaussian_deterministic:
  assumes "shape t1 = shape t2" and "rng p1 = rng p2"
  shows "(SampleGaussian RM t1 mu sigma p1 = None \<and> SampleGaussian RM t2 mu sigma p2 = None)
     \<or> (\<exists>q1 q2. SampleGaussian RM t1 mu sigma p1 = Some q1 \<and> SampleGaussian RM t2 mu sigma p2 = Some q2
          \<and> contents q1 t1 = contents q2 t2 \<and> rng q1 = rng q2)"
proof -
  have same: "inner (FlatTo2D t1) = inner (FlatTo2D t2)" "outer (FlatTo2D t1) = outer (FlatTo2D t2)"
    using assms(1) by (simp_all add: FlatTo2D_def)
  let ?n0 = "unat (inner (FlatTo2D t1))"
  show ?thesis
  proof (cases "rows_pairs RM ((?n0 + 1) div 2) (unat (outer (FlatTo2D t1))) (rng p1)")
    case None
    then have "SampleGaussian RM t1 mu sigma p1 = None" "SampleGaussian RM t2 mu sigma p2 = None"
      by (simp_all add: SampleGaussian_closed same [symmetric] assms(2) [symmetric])
    then show ?thesis by simp
  next
    case (Some r)
    obtain rows g' where r: "r = (rows, g')" by (cases r)
    let ?vss = "map (row_values ?n0 mu sigma) rows"
    let ?q1 = "p1\<lparr>memory := write_rows (FlatTo2D t1) 0 ?vss (memory p1), rng := g'\<rparr>"
    let ?q2 = "p2\<lparr>memory := write_rows (FlatTo2D t2) 0 ?vss (memory p2), rng := g'\<rparr>"
    have 1: "SampleGaussian RM t1 mu sigma p1 = Some ?q1"
      using Some r by (simp add: SampleGaussian_closed)
    have 2: "SampleGaussian RM t2 mu sigma p2 = Some ?q2"
      using Some r by (simp add: SampleGaussian_closed same [symmetric] assms(2) [symmetric])
    from rows_pairs_length [OF Some [unfolded r]]
    have len: "length rows = unat (outer (FlatTo2D t1))"
      and each: "\<forall>prs \<in> set rows. length prs = (?n0 + 1) div 2"
      by simp_all
    have each': "\<forall>vs \<in> set ?vss. length vs = ?n0"
    proof
      fix vs assume "vs \<in> set ?vss"
      then obtain prs where "prs \<in> set rows" and vs: "vs = row_values ?n0 mu sigma prs" by auto
      with each have "length prs = (?n0 + 1) div 2" by simp
      then have "?n0 \<le> 2 * length prs" by linarith
      then show "length vs = ?n0" unfolding vs by (rule row_values_length)
    qed
    have "contents ?q1 t1 = contents ?q2 t2"
      by (rule write_rows_same_contents [OF assms(1) _ each', of _ "memory p1" _ "memory p2"])
         (simp_all add: len)
    with 1 2 show ?thesis by simp
  qed
qed


section \<open>Sequences of calls\<close>

lemma GetTemp_same_shape:
  assumes "shape0 (shape (buffer this1)) = shape0 (shape (buffer this2))"
  shows "(\<exists>e. GetTemp this1 sh = Inl e \<and> GetTemp this2 sh = Inl e)
     \<or> (\<exists>t1 t2. GetTemp this1 sh = Inr t1 \<and> GetTemp this2 sh = Inr t2 \<and> shape t1 = shape t2)"
  using assms by (simp add: GetTemp_def Let_def)

lemma run_call_deterministic:
  assumes "shape0 (shape (buffer this1)) = shape0 (shape (buffer this2))" and "rng p1 = rng p2"
  shows "map_option (map_sum id (map_prod id rng)) (run_call RM this1 c p1)
       = map_option (map_sum id (map_prod id rng)) (run_call RM this2 c p2)"
proof (cases c)
  case (CallSampleUniform dst a b)
  with SampleUniform_deterministic [OF refl assms(2), of RM dst a b] show ?thesis
    by (simp add: Let_def)
next
  case (CallSampleGaussian dst mu sigma)
  with SampleGaussian_deterministic [OF refl assms(2), of RM dst mu sigma] show ?thesis
    by auto
next
  case (CallUniform sh)
  from GetTemp_same_shape [OF assms(1), of sh] show ?thesis
  proof (elim disjE exE conjE)
    fix e assume "GetTemp this1 sh = Inl e" "GetTemp this2 sh = Inl e"
    with CallUniform show ?thesis by (simp add: uniform_def)
  next
    fix t1 t2 assume t: "GetTemp this1 sh = Inr t1" "GetTemp this2 sh = Inr t2" "shape t1 = shape t2"
    from SampleUniform_deterministic [OF t(3) assms(2), of RM 0 1] t(1,2) CallUniform
    show ?thesis by (simp add: uniform_def)
  qed
next
  case (CallGaussian sh)
  from GetTemp_same_shape [OF assms(1), of sh] show ?thesis
  proof (elim disjE exE conjE)
    fix e assume "GetTemp this1 sh = Inl e" "GetTemp this2 sh = Inl e"
    with CallGaussian show ?thesis by (simp add: gaussian_def)
  next
    fix t1 t2 assume t: "GetTemp this1 sh = Inr t1" "GetTemp this2 sh = Inr t2" "shape t1 = shape t2"
    from SampleGaussian_deterministic [OF t(3) assms(2), of RM 0 1] t(1,2) CallGaussian
    show ?thesis by (auto simp: gaussian_def)
  qed
qed

lemma run_calls_deterministic:
  assumes "shape0 (shape (buffer this1)) = shape0 (shape (buffer this2))" and "rng p1 = rng p2"
  shows "map_option (map_sum id (map_prod id rng)) (run_calls RM this1 cs p1)
       = map_option (map_sum id (map_prod id rng)) (run_calls RM this2 cs p2)"
  using assms(2)
proof (induction cs arbitrary: p1 p2)
  case Nil
  then show ?case by simp
next
  case (Cons c cs)
  note call = run_call_deterministic [OF assms(1) Cons.prems, of RM c]
  show ?case
  proof (cases "run_call RM this1 c p1")
    case None
    with call have "run_call RM this2 c p2 = None" by simp
    with None show ?thesis by simp
  next
    case (Some r1)
    with call obtain r2 where r2: "run_call RM this2 c p2 = Some r2"
      and rel: "map_sum id (map_prod id rng) r1 = map_sum id (map_prod id rng) r2"
      by (cases "run_call RM this2 c p2") auto
    show ?thesis
    proof (cases r1)
      case (Inl e)
      with rel have "r2 = Inl e" by (cases r2) auto
      with Inl Some r2 show ?thesis by simp
    next
      case (Inr op1)
      obtain out q1 where op1: "op1 = (out, q1)" by (cases op1)
      with Inr rel obtain q2 where "r2 = Inr (out, q2)" and q: "rng q1 = rng q2"
        by (cases r2) auto
      with Cons.IH [OF q] Inr op1 Some r2 show ?thesis
        by (cases "run_calls RM this1 cs q1"; cases "run_calls RM this2 cs q2")
           (auto split: sum.splits)
    qed
  qed
qed

lemma outputs_of_rng:
  "outputs r = map_option (map_sum id fst) (map_option (map_sum id (map_prod id rng)) r)"
proof (cases r)
  case None
  then show ?thesis by (simp add: outputs_def)
next
  case (Some a)
  then show ?thesis by (cases a) (simp_all add: outputs_def)
qed

text \<open>
  One engine on its own is deterministic. The outputs of an engine that is constructed
  with a seed and then given a sequence of sampling calls, nothing else drawing from or
  seeding the generator of the process in between, are determined by the seed and the
  calls: two such runs give the same outputs (or the same failure, or both do not
  return), whatever the memory and the generator state before the construction and
  whatever memory the allocator gives to the scratch buffers.
\<close>

lemma session_deterministic:
  "outputs (session srand_seq RAND_MAX kRandBufferSize base1 pitch1 seed cs p1)
   = outputs (session srand_seq RAND_MAX kRandBufferSize base2 pitch2 seed cs p2)"
  unfolding outputs_of_rng session_def Random_cpu_def Let_def prod.case
  by (rule arg_cong [where f = "map_option (map_sum id fst)"])
     (rule run_calls_deterministic, simp_all)


lemma SampleUniform_contents:
  assumes "unat (inner (FlatTo2D dst)) \<le> unat (mstride (FlatTo2D dst))"
  shows "contents (SampleUniform RM dst a b p) dst =
     map (\<lambda>k. uniform_values RM a b (unat (inner (FlatTo2D dst)))
              (shift (k * unat (inner (FlatTo2D dst))) (rng p)))
       [0 ..< unat (outer (FlatTo2D dst))]"
proof (rule nth_equalityI)
  show "length (contents (SampleUniform RM dst a b p) dst) =
      length (map (\<lambda>k. uniform_values RM a b (unat (inner (FlatTo2D dst)))
              (shift (k * unat (inner (FlatTo2D dst))) (rng p)))
       [0 ..< unat (outer (FlatTo2D dst))])"
    by (simp add: contents_length)
next
  fix i assume "i < length (contents (SampleUniform RM dst a b p) dst)"
  then have i: "i < unat (outer (FlatTo2D dst))" by (simp add: contents_length)
  show "contents (SampleUniform RM dst a b p) dst ! i =
      map (\<lambda>k. uniform_values RM a b (unat (inner (FlatTo2D dst)))
              (shift (k * unat (inner (FlatTo2D dst))) (rng p)))
       [0 ..< unat (outer (FlatTo2D dst))] ! i"
  proof (rule nth_equalityI)
    show "length (contents (SampleUniform RM dst a b p) dst ! i) =
      length (map (\<lambda>k. uniform_values RM a b (unat (inner (FlatTo2D dst)))
              (shift (k * unat (inner (FlatTo2D dst))) (rng p)))
       [0 ..< unat (outer (FlatTo2D dst))] ! i)"
      using i by (simp add: contents_length)
  next
    fix j assume "j < length (contents (SampleUniform RM dst a b p) dst ! i)"
    with i have j: "j < unat (inner (FlatTo2D dst))" by (simp add: contents_length)
    from i j SampleUniform_read [OF assms i j, of RM a b p]
    show "contents (SampleUniform RM dst a b p) dst ! i ! j =
      map (\<lambda>k. uniform_values RM a b (unat (inner (FlatTo2D dst)))
              (shift (k * unat (inner (FlatTo2D dst))) (rng p)))
       [0 ..< unat (outer (FlatTo2D dst))] ! i ! j"
      by (simp add: contents_nth uniform_values_def shift_def add.commute)
  qed
qed

lemma iso_c_rand_1: "iso_c_rand 1 0 = 16838" "iso_c_rand 1 (Suc 0) = 5758"
  by (simp_all add: iso_c_rand_def)

text \<open>
  Claim C9: two engines constructed with the same seed and given the same calls produce
  the same outputs. \<^verbatim>\<open>Random<cpu>\<close> on the stdlib branch breaks it for two engines in one
  process: it keeps no generator of its own (the MKL branch keeps the stream
  \<^verbatim>\<open>vStream_\<close> and \<^verbatim>\<open>Random<gpu>\<close> the generator \<^verbatim>\<open>gen_\<close>, one for each engine), the
  constructor seeds the generator of the process and the sampling functions draw from
  it. Two engines are constructed with the seed 1, one after the other; then the first
  fills a 1 x 1 tensor by \<^verbatim>\<open>SampleUniform\<close>, then the second does the same. With the C
  library of ISO C's example the output of the first is 16838/32768 and the output of
  the second is 5758/32768: the second engine continues where the first stopped.
\<close>

theorem two_engines_share_the_generator:
  "Random_cpu iso_c_rand 16 0 16 1 \<lparr>memory = (\<lambda>x. 0), rng = (\<lambda>n. 0)\<rparr>
     = (\<lparr>buffer = \<lparr>dptr = 0, shape = \<lparr>shape0 = 16 :: 32 word, rest = [], stride = 16\<rparr>\<rparr>\<rparr>,
        \<lparr>memory = (\<lambda>x. 0), rng = iso_c_rand 1\<rparr>)
   \<and> Random_cpu iso_c_rand 16 100 16 1 \<lparr>memory = (\<lambda>x. 0), rng = iso_c_rand 1\<rparr>
     = (\<lparr>buffer = \<lparr>dptr = 100, shape = \<lparr>shape0 = 16 :: 32 word, rest = [], stride = 16\<rparr>\<rparr>\<rparr>,
        \<lparr>memory = (\<lambda>x. 0), rng = iso_c_rand 1\<rparr>)
   \<and> outputs (run_call 32767
        \<lparr>buffer = \<lparr>dptr = 0, shape = \<lparr>shape0 = 16 :: 32 word, rest = [], stride = 16\<rparr>\<rparr>\<rparr>
        (CallSampleUniform \<lparr>dptr = 200, shape = \<lparr>shape0 = 1, rest = [], stride = 1\<rparr>\<rparr> 0 1)
        \<lparr>memory = (\<lambda>x. 0), rng = iso_c_rand 1\<rparr>)
     = Some (Inr [[8419 / 16384]])
   \<and> outputs (run_call 32767
        \<lparr>buffer = \<lparr>dptr = 100, shape = \<lparr>shape0 = 16 :: 32 word, rest = [], stride = 16\<rparr>\<rparr>\<rparr>
        (CallSampleUniform \<lparr>dptr = 200, shape = \<lparr>shape0 = 1, rest = [], stride = 1\<rparr>\<rparr> 0 1)
        (SampleUniform 32767 \<lparr>dptr = 200, shape = \<lparr>shape0 = 1 :: 32 word, rest = [], stride = 1\<rparr>\<rparr> 0 1
           \<lparr>memory = (\<lambda>x. 0), rng = iso_c_rand 1\<rparr>))
     = Some (Inr [[2879 / 16384]])"
proof -
  let ?dst = "\<lparr>dptr = 200, shape = \<lparr>shape0 = 1 :: 32 word, rest = [], stride = 1\<rparr>\<rparr>"
  have geom: "unat (inner (FlatTo2D ?dst)) = Suc 0" "unat (outer (FlatTo2D ?dst)) = Suc 0"
    "unat (mstride (FlatTo2D ?dst)) = Suc 0"
    by (simp_all add: FlatTo2D_def)
  have first: "contents (SampleUniform 32767 ?dst 0 1 q) ?dst = [[real_of_int (rng q 0) / 32768]]" for q
    by (subst SampleUniform_contents) (simp_all add: geom uniform_values_def shift_def)
  have after: "rng (SampleUniform 32767 ?dst 0 1 q) = shift 1 (rng q)" for q
    by (simp add: SampleUniform_closed geom)
  show ?thesis
    by (simp add: Let_def Random_cpu_def outputs_def first after shift_def iso_c_rand_1)
qed


section \<open>Temporaries\<close>

lemma GetTemp_view:
  "GetTemp this sh = Inr t \<Longrightarrow>
   t = \<lparr>dptr = dptr (buffer this), shape = sh\<lparr>stride := push_bit 2 (drop_bit 2 (shape0 sh + 3))\<rparr>\<rparr>"
  by (auto simp: GetTemp_def Let_def split: if_splits)

lemma temporary_view:
  assumes "uniform RM this sh p = Inr (t, p') \<or> gaussian RM this sh p = Some (Inr (t, p'))"
  shows "GetTemp this sh = Inr t"
  using assms
  by (auto simp: uniform_def gaussian_def split: sum.splits option.splits)

lemma temporary_rows_apart:
  fixes sh :: "'w::len Shape"
  assumes "GetTemp this sh = Inr t" and "unat (shape0 sh) + 3 < 2 ^ LENGTH('w)"
  shows "unat (inner (FlatTo2D t)) \<le> unat (mstride (FlatTo2D t))"
proof -
  have "unat (shape0 sh) \<le> (unat (shape0 sh) + 3) div 4 * 4" by presburger
  then show ?thesis
    unfolding GetTemp_view [OF assms(1)]
    by (simp add: FlatTo2D_def padded_stride_unat [OF assms(2)])
qed

lemma temporary_cell:
  "GetTemp this sh = Inr t \<Longrightarrow>
   cell (FlatTo2D t) i j
     = dptr (buffer this) + i * unat (push_bit 2 (drop_bit 2 (shape0 sh + 3))) + j"
  by (drule GetTemp_view) (simp add: cell_def FlatTo2D_def)

lemma temporary_uniform_state:
  "uniform RM this sh p = Inr (t, p') \<Longrightarrow> p' = SampleUniform RM t 0 1 p"
  by (auto simp: uniform_def split: sum.splits)

lemma temporary_gaussian_state:
  "gaussian RM this sh p = Some (Inr (t, p')) \<Longrightarrow> SampleGaussian RM t 0 1 p = Some p'"
  by (auto simp: gaussian_def split: sum.splits option.splits)

lemma temporary_frame:
  assumes "uniform RM this sh p = Inr (t, p') \<or> gaussian RM this sh p = Some (Inr (t, p'))"
    and "x \<notin> cells (FlatTo2D t)"
  shows "memory p' x = memory p x"
  using assms(1)
proof
  assume "uniform RM this sh p = Inr (t, p')"
  then have "p' = SampleUniform RM t 0 1 p"
    by (rule temporary_uniform_state)
  with assms(2) show ?thesis
    by (simp add: SampleUniform_outside_cells)
next
  assume "gaussian RM this sh p = Some (Inr (t, p'))"
  then show ?thesis
    using assms(2) by (intro SampleGaussian_outside_cells [OF temporary_gaussian_state])
qed

lemma write_rows_written:
  assumes "d \<in> offsets (unat (mstride mat)) i vss"
  shows "\<exists>k j. k < length vss \<and> j < length (vss ! k) \<and> mptr mat + d = cell mat (i + k) j
     \<and> write_rows mat i vss m (mptr mat + d) = vss ! k ! j"
  using assms
proof (induction vss arbitrary: i m)
  case Nil
  then show ?case by simp
next
  case (Cons vs vss)
  let ?st = "unat (mstride mat)"
  let ?m' = "write_row (cell mat i 0) vs m"
  show ?case
  proof (cases "d \<in> offsets ?st (Suc i) vss")
    case True
    from Cons.IH [OF True, of ?m'] obtain k j where
      k: "k < length vss" and j: "j < length (vss ! k)"
      and x: "mptr mat + d = cell mat (Suc i + k) j"
      and v: "write_rows mat (Suc i) vss ?m' (mptr mat + d) = vss ! k ! j"
      by blast
    from k j x v have "Suc k < length (vs # vss) \<and> j < length ((vs # vss) ! Suc k)
        \<and> mptr mat + d = cell mat (i + Suc k) j
        \<and> write_rows mat i (vs # vss) m (mptr mat + d) = (vs # vss) ! Suc k ! j"
      by simp
    then show ?thesis by blast
  next
    case False
    with Cons.prems obtain j where d: "d = i * ?st + j" and j: "j < length vs"
      by (auto simp: offsets_Cons)
    from False have "\<forall>d' \<in> offsets ?st (Suc i) vss. mptr mat + d \<noteq> mptr mat + d'"
      by auto
    then have "write_rows mat (Suc i) vss ?m' (mptr mat + d) = ?m' (mptr mat + d)"
      by (rule write_rows_frame)
    also have "\<dots> = vs ! j"
      using j by (simp add: write_row_def cell_def d)
    finally have "0 < length (vs # vss) \<and> j < length ((vs # vss) ! 0)
        \<and> mptr mat + d = cell mat (i + 0) j
        \<and> write_rows mat i (vs # vss) m (mptr mat + d) = (vs # vss) ! 0 ! j"
      using j by (simp add: cell_def d)
    then show ?thesis by blast
  qed
qed

lemma cells_offsets:
  assumes "length vss = unat (outer mat)" and "\<forall>vs \<in> set vss. length vs = unat (inner mat)"
    and "x \<in> cells mat"
  shows "\<exists>d \<in> offsets (unat (mstride mat)) 0 vss. x = mptr mat + d"
proof -
  from assms(3) obtain i j where x: "x = cell mat i j" and i: "i < unat (outer mat)"
    and j: "j < unat (inner mat)"
    unfolding cells_def by blast
  from i j assms(1,2) have "i < length vss" "j < length (vss ! i)"
    by simp_all
  then have "(0 + i) * unat (mstride mat) + j \<in> offsets (unat (mstride mat)) 0 vss"
    unfolding offsets_def by blast
  then show ?thesis
    using x by (auto simp: cell_offset)
qed

lemma SampleUniform_written:
  assumes "x \<in> cells (FlatTo2D dst)"
  shows "\<exists>i j. i < unat (outer (FlatTo2D dst)) \<and> j < unat (inner (FlatTo2D dst))
     \<and> x = cell (FlatTo2D dst) i j
     \<and> memory (SampleUniform RM dst a b p) x =
         real_of_int (rng p (i * unat (inner (FlatTo2D dst)) + j)) / (real_of_int RM + 1) * (b - a) + a"
proof -
  let ?mat = "FlatTo2D dst"
  let ?n0 = "unat (inner ?mat)"
  let ?vss = "map (\<lambda>k. uniform_values RM a b ?n0 (shift (k * ?n0) (rng p))) [0 ..< unat (outer ?mat)]"
  have "\<exists>d \<in> offsets (unat (mstride ?mat)) 0 ?vss. x = mptr ?mat + d"
    using assms by (intro cells_offsets) simp_all
  then obtain d where d: "d \<in> offsets (unat (mstride ?mat)) 0 ?vss" and x: "x = mptr ?mat + d"
    by blast
  from write_rows_written [OF d, of "memory p"] obtain k j where
    k: "k < length ?vss" and j: "j < length (?vss ! k)" and xc: "x = cell ?mat (0 + k) j"
    and v: "write_rows ?mat 0 ?vss (memory p) x = ?vss ! k ! j"
    unfolding x by blast
  from k have k': "k < unat (outer ?mat)" by simp
  with j have j': "j < ?n0" by simp
  have "?vss ! k ! j = real_of_int (rng p (k * ?n0 + j)) / (real_of_int RM + 1) * (b - a) + a"
    using k' j' by (simp add: uniform_values_def shift_def add.commute)
  with v have "memory (SampleUniform RM dst a b p) x =
      real_of_int (rng p (k * ?n0 + j)) / (real_of_int RM + 1) * (b - a) + a"
    by (simp add: SampleUniform_closed)
  with k' j' xc show ?thesis by auto
qed

lemma SampleGaussian_written:
  assumes run: "SampleGaussian RM dst mu sigma p = Some p'"
    and x: "x \<in> cells (FlatTo2D dst)"
  shows "\<exists>rows g' i j.
       rows_pairs RM ((unat (inner (FlatTo2D dst)) + 1) div 2) (unat (outer (FlatTo2D dst)))
         (rng p) = Some (rows, g')
     \<and> i < unat (outer (FlatTo2D dst)) \<and> j < unat (inner (FlatTo2D dst))
     \<and> x = cell (FlatTo2D dst) i j
     \<and> memory p' x =
         mu + (if even j then fst (rows ! i ! (j div 2)) else snd (rows ! i ! (j div 2))) * sigma"
proof -
  let ?mat = "FlatTo2D dst"
  let ?n0 = "unat (inner ?mat)"
  from run obtain rows g' where
    rows: "rows_pairs RM ((?n0 + 1) div 2) (unat (outer ?mat)) (rng p) = Some (rows, g')"
    and p': "p' = p\<lparr>memory := write_rows ?mat 0 (map (row_values ?n0 mu sigma) rows) (memory p),
        rng := g'\<rparr>"
    by (auto simp: SampleGaussian_closed split: option.splits)
  let ?vss = "map (row_values ?n0 mu sigma) rows"
  from rows_pairs_length [OF rows]
  have len: "length rows = unat (outer ?mat)" and each: "\<forall>prs \<in> set rows. length prs = (?n0 + 1) div 2"
    by simp_all
  have enough: "?n0 \<le> 2 * length prs" if "prs \<in> set rows" for prs
  proof -
    from each that have "length prs = (?n0 + 1) div 2" by simp
    then show ?thesis by linarith
  qed
  have each': "\<forall>vs \<in> set ?vss. length vs = ?n0"
    using enough by (auto simp: row_values_length)
  have "\<exists>d \<in> offsets (unat (mstride ?mat)) 0 ?vss. x = mptr ?mat + d"
    using x len each' by (intro cells_offsets) simp_all
  then obtain d where d: "d \<in> offsets (unat (mstride ?mat)) 0 ?vss" and xd: "x = mptr ?mat + d"
    by blast
  from write_rows_written [OF d, of "memory p"] obtain k j where
    k: "k < length ?vss" and j: "j < length (?vss ! k)" and xc: "x = cell ?mat (0 + k) j"
    and v: "write_rows ?mat 0 ?vss (memory p) x = ?vss ! k ! j"
    unfolding xd by blast
  from k len have k': "k < unat (outer ?mat)" by simp
  from k have mem: "rows ! k \<in> set rows" by simp
  from j k each' have j': "j < ?n0" by simp
  have "?vss ! k ! j = mu + (if even j then fst (rows ! k ! (j div 2)) else snd (rows ! k ! (j div 2))) * sigma"
    using k j' enough [OF mem] by (simp add: row_values_nth)
  with v have "memory p' x =
      mu + (if even j then fst (rows ! k ! (j div 2)) else snd (rows ! k ! (j div 2))) * sigma"
    by (simp add: p')
  with rows k' j' xc show ?thesis by auto
qed

text \<open>
  Claim C6. The views that \<^verbatim>\<open>uniform(shape)\<close> and \<^verbatim>\<open>gaussian(shape)\<close> return on an engine
  start at the base address of its scratch buffer, so the first cell of the view of a
  first call is the first cell of the view of the next call, and for the same leading
  extent every cell \<open>(i, j)\<close> of the one is the cell \<open>(i, j)\<close> of the other. After the
  second call, what is read through the view of the first call is the data of the
  second call wherever the two views share a cell: the scalar at a cell of the first
  view that is a cell of the second view is a scalar that the second call wrote there,
  the one for a position \<open>(i2, j2)\<close> of the second view at that cell. For \<^verbatim>\<open>uniform\<close> that
  is \<^verbatim>\<open>RandNext()*(1-0) + 0\<close> of draw \<open>i2 * n + j2\<close> after the first call (\<open>n\<close> the inner
  extent); for \<^verbatim>\<open>gaussian\<close> it is \<open>0 + g * 1\<close> for the first or second element \<open>g\<close> of pair
  \<open>j2 div 2\<close> of row \<open>i2\<close>, the pairs being those that the calls of \<^verbatim>\<open>SampleNormal2D\<close> after
  the first call return. Where \<^verbatim>\<open>shape[0] + 3\<close> of the second shape does not wrap around,
  the rows of the second view do not overlap, and the scalar is the one for every
  position \<open>(i2, j2)\<close> of the second view at that cell. A cell of the first view that is
  no cell of the second keeps what it held before the second call.
\<close>

theorem temporaries_share_the_buffer:
  fixes sh1 sh2 :: "'w::len Shape"
  assumes "uniform RAND_MAX this sh1 p = Inr (t1, p1)
      \<or> gaussian RAND_MAX this sh1 p = Some (Inr (t1, p1))"
    and "uniform RAND_MAX this sh2 p1 = Inr (t2, p2)
      \<or> gaussian RAND_MAX this sh2 p1 = Some (Inr (t2, p2))"
  shows "dptr t1 = dptr (buffer this) \<and> dptr t2 = dptr (buffer this)
     \<and> cell (FlatTo2D t1) 0 0 = cell (FlatTo2D t2) 0 0
     \<and> (shape0 sh1 = shape0 sh2 \<longrightarrow> (\<forall>i j. cell (FlatTo2D t1) i j = cell (FlatTo2D t2) i j))
     \<and> (\<forall>i1 j1. i1 < unat (outer (FlatTo2D t1)) \<and> j1 < unat (inner (FlatTo2D t1))
            \<and> cell (FlatTo2D t1) i1 j1 \<notin> cells (FlatTo2D t2) \<longrightarrow>
          contents p2 t1 ! i1 ! j1 = contents p1 t1 ! i1 ! j1)
     \<and> (uniform RAND_MAX this sh2 p1 = Inr (t2, p2) \<longrightarrow>
          (\<forall>i1 j1. i1 < unat (outer (FlatTo2D t1)) \<and> j1 < unat (inner (FlatTo2D t1))
              \<and> cell (FlatTo2D t1) i1 j1 \<in> cells (FlatTo2D t2) \<longrightarrow>
            (\<exists>i2 j2. i2 < unat (outer (FlatTo2D t2)) \<and> j2 < unat (inner (FlatTo2D t2))
               \<and> cell (FlatTo2D t1) i1 j1 = cell (FlatTo2D t2) i2 j2
               \<and> contents p2 t1 ! i1 ! j1 =
                   real_of_int (rng p1 (i2 * unat (inner (FlatTo2D t2)) + j2))
                     / (real_of_int RAND_MAX + 1) * (1 - 0) + 0))
          \<and> (unat (shape0 sh2) + 3 < 2 ^ LENGTH('w) \<longrightarrow>
              (\<forall>i1 j1 i2 j2.
                  i1 < unat (outer (FlatTo2D t1)) \<and> j1 < unat (inner (FlatTo2D t1))
                  \<and> i2 < unat (outer (FlatTo2D t2)) \<and> j2 < unat (inner (FlatTo2D t2))
                  \<and> cell (FlatTo2D t1) i1 j1 = cell (FlatTo2D t2) i2 j2 \<longrightarrow>
                contents p2 t1 ! i1 ! j1 =
                  real_of_int (rng p1 (i2 * unat (inner (FlatTo2D t2)) + j2))
                    / (real_of_int RAND_MAX + 1) * (1 - 0) + 0)))
     \<and> (gaussian RAND_MAX this sh2 p1 = Some (Inr (t2, p2)) \<longrightarrow>
          (\<exists>rows g'.
              rows_pairs RAND_MAX ((unat (inner (FlatTo2D t2)) + 1) div 2)
                (unat (outer (FlatTo2D t2))) (rng p1) = Some (rows, g')
            \<and> (\<forall>i1 j1. i1 < unat (outer (FlatTo2D t1)) \<and> j1 < unat (inner (FlatTo2D t1))
                  \<and> cell (FlatTo2D t1) i1 j1 \<in> cells (FlatTo2D t2) \<longrightarrow>
                (\<exists>i2 j2. i2 < unat (outer (FlatTo2D t2)) \<and> j2 < unat (inner (FlatTo2D t2))
                   \<and> cell (FlatTo2D t1) i1 j1 = cell (FlatTo2D t2) i2 j2
                   \<and> contents p2 t1 ! i1 ! j1 =
                       0 + (if even j2 then fst (rows ! i2 ! (j2 div 2))
                            else snd (rows ! i2 ! (j2 div 2))) * 1))
            \<and> (unat (shape0 sh2) + 3 < 2 ^ LENGTH('w) \<longrightarrow>
                (\<forall>i1 j1 i2 j2.
                    i1 < unat (outer (FlatTo2D t1)) \<and> j1 < unat (inner (FlatTo2D t1))
                    \<and> i2 < unat (outer (FlatTo2D t2)) \<and> j2 < unat (inner (FlatTo2D t2))
                    \<and> cell (FlatTo2D t1) i1 j1 = cell (FlatTo2D t2) i2 j2 \<longrightarrow>
                  contents p2 t1 ! i1 ! j1 =
                    0 + (if even j2 then fst (rows ! i2 ! (j2 div 2))
                         else snd (rows ! i2 ! (j2 div 2))) * 1))))"
proof -
  have v1: "GetTemp this sh1 = Inr t1"
    by (rule temporary_view [OF assms(1)])
  have v2: "GetTemp this sh2 = Inr t2"
    by (rule temporary_view [OF assms(2)])
  have base: "dptr t1 = dptr (buffer this) \<and> dptr t2 = dptr (buffer this)"
    using GetTemp_view [OF v1] GetTemp_view [OF v2] by simp
  have first: "cell (FlatTo2D t1) 0 0 = cell (FlatTo2D t2) 0 0"
    by (simp only: temporary_cell [OF v1] temporary_cell [OF v2])
  have same: "shape0 sh1 = shape0 sh2 \<longrightarrow> (\<forall>i j. cell (FlatTo2D t1) i j = cell (FlatTo2D t2) i j)"
    by (simp only: temporary_cell [OF v1] temporary_cell [OF v2]) simp
  have kept: "\<forall>i1 j1. i1 < unat (outer (FlatTo2D t1)) \<and> j1 < unat (inner (FlatTo2D t1))
            \<and> cell (FlatTo2D t1) i1 j1 \<notin> cells (FlatTo2D t2) \<longrightarrow>
          contents p2 t1 ! i1 ! j1 = contents p1 t1 ! i1 ! j1"
    by (simp add: contents_nth temporary_frame [OF assms(2)])
  have unif_some: "\<exists>i2 j2. i2 < unat (outer (FlatTo2D t2)) \<and> j2 < unat (inner (FlatTo2D t2))
               \<and> cell (FlatTo2D t1) i1 j1 = cell (FlatTo2D t2) i2 j2
               \<and> contents p2 t1 ! i1 ! j1 =
                   real_of_int (rng p1 (i2 * unat (inner (FlatTo2D t2)) + j2))
                     / (real_of_int RAND_MAX + 1) * (1 - 0) + 0"
    if u: "uniform RAND_MAX this sh2 p1 = Inr (t2, p2)"
      and r1: "i1 < unat (outer (FlatTo2D t1))" "j1 < unat (inner (FlatTo2D t1))"
      and sh: "cell (FlatTo2D t1) i1 j1 \<in> cells (FlatTo2D t2)"
    for i1 j1
    unfolding contents_nth [OF r1] temporary_uniform_state [OF u]
    by (rule SampleUniform_written [OF sh])
  have unif: "contents p2 t1 ! i1 ! j1 =
            real_of_int (rng p1 (i2 * unat (inner (FlatTo2D t2)) + j2))
              / (real_of_int RAND_MAX + 1) * (1 - 0) + 0"
    if u: "uniform RAND_MAX this sh2 p1 = Inr (t2, p2)"
      and small: "unat (shape0 sh2) + 3 < 2 ^ LENGTH('w)"
      and r1: "i1 < unat (outer (FlatTo2D t1))" "j1 < unat (inner (FlatTo2D t1))"
      and r2: "i2 < unat (outer (FlatTo2D t2))" "j2 < unat (inner (FlatTo2D t2))"
      and eq: "cell (FlatTo2D t1) i1 j1 = cell (FlatTo2D t2) i2 j2"
    for i1 j1 i2 j2
    unfolding contents_nth [OF r1] eq temporary_uniform_state [OF u]
    by (rule SampleUniform_read [OF temporary_rows_apart [OF v2 small] r2])
  have gauss: "\<exists>rows g'.
              rows_pairs RAND_MAX ((unat (inner (FlatTo2D t2)) + 1) div 2)
                (unat (outer (FlatTo2D t2))) (rng p1) = Some (rows, g')
            \<and> (\<forall>i1 j1. i1 < unat (outer (FlatTo2D t1)) \<and> j1 < unat (inner (FlatTo2D t1))
                  \<and> cell (FlatTo2D t1) i1 j1 \<in> cells (FlatTo2D t2) \<longrightarrow>
                (\<exists>i2 j2. i2 < unat (outer (FlatTo2D t2)) \<and> j2 < unat (inner (FlatTo2D t2))
                   \<and> cell (FlatTo2D t1) i1 j1 = cell (FlatTo2D t2) i2 j2
                   \<and> contents p2 t1 ! i1 ! j1 =
                       0 + (if even j2 then fst (rows ! i2 ! (j2 div 2))
                            else snd (rows ! i2 ! (j2 div 2))) * 1))
            \<and> (unat (shape0 sh2) + 3 < 2 ^ LENGTH('w) \<longrightarrow>
                (\<forall>i1 j1 i2 j2.
                    i1 < unat (outer (FlatTo2D t1)) \<and> j1 < unat (inner (FlatTo2D t1))
                    \<and> i2 < unat (outer (FlatTo2D t2)) \<and> j2 < unat (inner (FlatTo2D t2))
                    \<and> cell (FlatTo2D t1) i1 j1 = cell (FlatTo2D t2) i2 j2 \<longrightarrow>
                  contents p2 t1 ! i1 ! j1 =
                    0 + (if even j2 then fst (rows ! i2 ! (j2 div 2))
                         else snd (rows ! i2 ! (j2 div 2))) * 1))"
    if g: "gaussian RAND_MAX this sh2 p1 = Some (Inr (t2, p2))"
  proof -
    note run = temporary_gaussian_state [OF g]
    from run obtain rows g' where
      rows: "rows_pairs RAND_MAX ((unat (inner (FlatTo2D t2)) + 1) div 2)
              (unat (outer (FlatTo2D t2))) (rng p1) = Some (rows, g')"
      by (auto simp: SampleGaussian_closed split: option.splits)
    have some: "\<exists>i2 j2. i2 < unat (outer (FlatTo2D t2)) \<and> j2 < unat (inner (FlatTo2D t2))
                   \<and> cell (FlatTo2D t1) i1 j1 = cell (FlatTo2D t2) i2 j2
                   \<and> contents p2 t1 ! i1 ! j1 =
                       0 + (if even j2 then fst (rows ! i2 ! (j2 div 2))
                            else snd (rows ! i2 ! (j2 div 2))) * 1"
      if r1: "i1 < unat (outer (FlatTo2D t1))" "j1 < unat (inner (FlatTo2D t1))"
        and sh: "cell (FlatTo2D t1) i1 j1 \<in> cells (FlatTo2D t2)"
      for i1 j1
      using SampleGaussian_written [OF run sh] rows
      unfolding contents_nth [OF r1] by auto
    have exact: "contents p2 t1 ! i1 ! j1 =
                0 + (if even j2 then fst (rows ! i2 ! (j2 div 2))
                     else snd (rows ! i2 ! (j2 div 2))) * 1"
      if small: "unat (shape0 sh2) + 3 < 2 ^ LENGTH('w)"
        and r1: "i1 < unat (outer (FlatTo2D t1))" "j1 < unat (inner (FlatTo2D t1))"
        and r2: "i2 < unat (outer (FlatTo2D t2))" "j2 < unat (inner (FlatTo2D t2))"
        and eq: "cell (FlatTo2D t1) i1 j1 = cell (FlatTo2D t2) i2 j2"
      for i1 j1 i2 j2
      using SampleGaussian_read [OF rows temporary_rows_apart [OF v2 small] r2, of 0 1] run
      unfolding contents_nth [OF r1] eq by auto
    from rows some exact show ?thesis by blast
  qed
  from unif_some unif
  have u: "uniform RAND_MAX this sh2 p1 = Inr (t2, p2) \<longrightarrow>
          (\<forall>i1 j1. i1 < unat (outer (FlatTo2D t1)) \<and> j1 < unat (inner (FlatTo2D t1))
              \<and> cell (FlatTo2D t1) i1 j1 \<in> cells (FlatTo2D t2) \<longrightarrow>
            (\<exists>i2 j2. i2 < unat (outer (FlatTo2D t2)) \<and> j2 < unat (inner (FlatTo2D t2))
               \<and> cell (FlatTo2D t1) i1 j1 = cell (FlatTo2D t2) i2 j2
               \<and> contents p2 t1 ! i1 ! j1 =
                   real_of_int (rng p1 (i2 * unat (inner (FlatTo2D t2)) + j2))
                     / (real_of_int RAND_MAX + 1) * (1 - 0) + 0))
          \<and> (unat (shape0 sh2) + 3 < 2 ^ LENGTH('w) \<longrightarrow>
              (\<forall>i1 j1 i2 j2.
                  i1 < unat (outer (FlatTo2D t1)) \<and> j1 < unat (inner (FlatTo2D t1))
                  \<and> i2 < unat (outer (FlatTo2D t2)) \<and> j2 < unat (inner (FlatTo2D t2))
                  \<and> cell (FlatTo2D t1) i1 j1 = cell (FlatTo2D t2) i2 j2 \<longrightarrow>
                contents p2 t1 ! i1 ! j1 =
                  real_of_int (rng p1 (i2 * unat (inner (FlatTo2D t2)) + j2))
                    / (real_of_int RAND_MAX + 1) * (1 - 0) + 0))"
    by blast
  from base first same kept u gauss show ?thesis
    by blast
qed

text \<open>An engine with a buffer of 16 scalars. \<^verbatim>\<open>uniform\<close> for two scalars writes 1/4 and
  1/2 (draws 8192 and 16384, \<^verbatim>\<open>RAND_MAX\<close> 32767). A following \<^verbatim>\<open>gaussian\<close> for one scalar
  (draws 8191 and 16383, accepted) writes the first element of its pair into the first
  cell: the view of the first call now shows that element and 1/2. A following \<^verbatim>\<open>uniform\<close>
  for one scalar in its place (draw 8191) makes it show 8191/32768 and 1/2.\<close>

theorem temporaries_share_the_buffer_witness:
  "let eng = \<lparr>buffer = \<lparr>dptr = 0, shape = \<lparr>shape0 = 16 :: 32 word, rest = [], stride = 16\<rparr>\<rparr>\<rparr>;
       p = \<lparr>memory = (\<lambda>x. 0),
            rng = (\<lambda>n. if n = 0 then 8192 else if n = 1 then 16384
                       else if even n then 8191 else 16383)\<rparr>;
       X = - (16385 / 32769) * sqrt (- 2 * ln (268468226 / 1073807361) / (268468226 / 1073807361))
   in \<exists>t1 p1.
        uniform 32767 eng \<lparr>shape0 = 2, rest = [], stride = 0\<rparr> p = Inr (t1, p1)
        \<and> contents p1 t1 ! 0 ! 0 = 1 / 4 \<and> contents p1 t1 ! 0 ! 1 = 1 / 2
        \<and> (\<exists>t2 p2. gaussian 32767 eng \<lparr>shape0 = 1, rest = [], stride = 0\<rparr> p1 = Some (Inr (t2, p2))
              \<and> dptr t2 = dptr t1
              \<and> contents p2 t1 ! 0 ! 0 = X \<and> contents p2 t1 ! 0 ! 1 = 1 / 2)
        \<and> (\<exists>t2 p2. uniform 32767 eng \<lparr>shape0 = 1, rest = [], stride = 0\<rparr> p1 = Inr (t2, p2)
              \<and> dptr t2 = dptr t1
              \<and> contents p2 t1 ! 0 ! 0 = 8191 / 32768 \<and> contents p2 t1 ! 0 ! 1 = 1 / 2)"
proof -
  let ?eng = "\<lparr>buffer = \<lparr>dptr = 0, shape = \<lparr>shape0 = 16 :: 32 word, rest = [], stride = 16\<rparr>\<rparr>\<rparr>"
  let ?g = "\<lambda>n::nat. if n = 0 then 8192 else if n = 1 then 16384
                       else if even n then 8191 else (16383::int)"
  let ?h = "\<lambda>n::nat. if even n then 8191 else (16383::int)"
  let ?p = "\<lparr>memory = (\<lambda>x::nat. 0::real), rng = ?g\<rparr>"
  let ?sh1 = "\<lparr>shape0 = 2 :: 32 word, rest = [], stride = 0\<rparr>"
  let ?sh2 = "\<lparr>shape0 = 1 :: 32 word, rest = [], stride = 0\<rparr>"
  let ?t1 = "\<lparr>dptr = 0, shape = \<lparr>shape0 = 2 :: 32 word, rest = [], stride = 4\<rparr>\<rparr>"
  let ?t2 = "\<lparr>dptr = 0, shape = \<lparr>shape0 = 1 :: 32 word, rest = [], stride = 4\<rparr>\<rparr>"
  let ?p1 = "SampleUniform 32767 ?t1 0 1 ?p"
  let ?p2 = "SampleUniform 32767 ?t2 0 1 ?p1"
  define X :: real
    where "X = - (16385 / 32769) * sqrt (- 2 * ln (268468226 / 1073807361) / (268468226 / 1073807361))"
  define Y :: real
    where "Y = - (1 / 32769) * sqrt (- 2 * ln (268468226 / 1073807361) / (268468226 / 1073807361))"
  have get1: "GetTemp ?eng ?sh1 = Inr ?t1" and get2: "GetTemp ?eng ?sh2 = Inr ?t2"
    by (simp_all add: GetTemp_def MSize_def Let_def)
  have geom1: "unat (inner (FlatTo2D ?t1)) = 2" "unat (outer (FlatTo2D ?t1)) = 1"
    "unat (mstride (FlatTo2D ?t1)) = 4"
    and geom2: "unat (inner (FlatTo2D ?t2)) = 1" "unat (outer (FlatTo2D ?t2)) = 1"
    "unat (mstride (FlatTo2D ?t2)) = 4"
    by (simp_all add: FlatTo2D_def)
  have c: "cell (FlatTo2D ?t1) 0 j = j" "cell (FlatTo2D ?t2) 0 j = j" for j
    by (simp_all add: cell_def FlatTo2D_def)
  have cells2: "cells (FlatTo2D ?t2) = {0 ..< 1}"
    by (subst cells_row) (simp_all add: FlatTo2D_def)
  have first: "uniform 32767 ?eng ?sh1 ?p = Inr (?t1, ?p1)"
    by (simp add: uniform_def get1)
  have r1: "(0::nat) < unat (outer (FlatTo2D ?t1))" "(0::nat) < unat (inner (FlatTo2D ?t1))"
    "(1::nat) < unat (inner (FlatTo2D ?t1))"
    and r2: "(0::nat) < unat (outer (FlatTo2D ?t2))" "(0::nat) < unat (inner (FlatTo2D ?t2))"
    by (simp_all add: geom1 geom2)
  have apart1: "unat (inner (FlatTo2D ?t1)) \<le> unat (mstride (FlatTo2D ?t1))"
    by (simp add: geom1)
  have c10: "contents ?p1 ?t1 ! 0 ! 0 = 1 / 4"
    unfolding contents_nth [OF r1(1,2)] SampleUniform_read [OF apart1 r1(1,2)] by simp
  have c11: "contents ?p1 ?t1 ! 0 ! 1 = 1 / 2"
    unfolding contents_nth [OF r1(1,3)] SampleUniform_read [OF apart1 r1(1,3)] by simp
  have g1: "rng ?p1 = ?h"
    by (simp add: SampleUniform_closed geom1 shift_def fun_eq_iff)
  have pair: "SampleNormal2D 32767 ?h = Some ((X, Y), ?h)"
    unfolding X_def Y_def by (rule SampleNormal2D_example)
  have rows: "rows_pairs 32767 ((unat (inner (FlatTo2D ?t2)) + 1) div 2)
      (unat (outer (FlatTo2D ?t2))) (rng ?p1) = Some ([[(X, Y)]], ?h)"
    unfolding geom2 g1 by (simp add: pair)
  from SampleGaussian_read [OF rows _ r2, of 0 1]
  obtain q where run: "SampleGaussian 32767 ?t2 0 1 ?p1 = Some q"
    by (auto simp: geom2)
  have second_g: "gaussian 32767 ?eng ?sh2 ?p1 = Some (Inr (?t2, q))"
    by (simp add: gaussian_def get2 run)
  have second_u: "uniform 32767 ?eng ?sh2 ?p1 = Inr (?t2, ?p2)"
    by (simp add: uniform_def get2)
  have small: "unat (shape0 ?sh2) + 3 < 2 ^ LENGTH(32)"
    by simp
  have other: "cell (FlatTo2D ?t1) 0 1 \<notin> cells (FlatTo2D ?t2)"
    by (simp add: c cells2)
  note G = temporaries_share_the_buffer [OF disjI1 [OF first] disjI2 [OF second_g]]
  note U = temporaries_share_the_buffer [OF disjI1 [OF first] disjI1 [OF second_u]]
  from G have same: "cell (FlatTo2D ?t1) 0 0 = cell (FlatTo2D ?t2) 0 0"
    by blast
  from G small second_g obtain rows' g' where
    rows': "rows_pairs 32767 ((unat (inner (FlatTo2D ?t2)) + 1) div 2)
      (unat (outer (FlatTo2D ?t2))) (rng ?p1) = Some (rows', g')"
    and read: "\<forall>i1 j1 i2 j2.
        i1 < unat (outer (FlatTo2D ?t1)) \<and> j1 < unat (inner (FlatTo2D ?t1))
        \<and> i2 < unat (outer (FlatTo2D ?t2)) \<and> j2 < unat (inner (FlatTo2D ?t2))
        \<and> cell (FlatTo2D ?t1) i1 j1 = cell (FlatTo2D ?t2) i2 j2 \<longrightarrow>
        contents q ?t1 ! i1 ! j1 =
          0 + (if even j2 then fst (rows' ! i2 ! (j2 div 2))
               else snd (rows' ! i2 ! (j2 div 2))) * 1"
    by blast
  from rows rows' have "rows' = [[(X, Y)]]"
    by simp
  with read r1 r2 same have g0: "contents q ?t1 ! 0 ! 0 = X"
    by simp
  from G r1 other have g1': "contents q ?t1 ! 0 ! 1 = contents ?p1 ?t1 ! 0 ! 1"
    by blast
  from U small second_u r1 r2 same
  have u0: "contents ?p2 ?t1 ! 0 ! 0 =
      real_of_int (rng ?p1 (0 * unat (inner (FlatTo2D ?t2)) + 0)) / (real_of_int 32767 + 1) * (1 - 0) + 0"
    by blast
  from U r1 other have u1: "contents ?p2 ?t1 ! 0 ! 1 = contents ?p1 ?t1 ! 0 ! 1"
    by blast
  have u0': "contents ?p2 ?t1 ! 0 ! 0 = 8191 / 32768"
    unfolding u0 g1 by simp
  have "\<exists>t2 p2. gaussian 32767 ?eng ?sh2 ?p1 = Some (Inr (t2, p2)) \<and> dptr t2 = dptr ?t1
      \<and> contents p2 ?t1 ! 0 ! 0 = X \<and> contents p2 ?t1 ! 0 ! 1 = 1 / 2"
    using second_g g0 g1' c11 by (intro exI [of _ ?t2] exI [of _ q]) simp
  moreover have "\<exists>t2 p2. uniform 32767 ?eng ?sh2 ?p1 = Inr (t2, p2) \<and> dptr t2 = dptr ?t1
      \<and> contents p2 ?t1 ! 0 ! 0 = 8191 / 32768 \<and> contents p2 ?t1 ! 0 ! 1 = 1 / 2"
    using second_u u0' u1 c11 by (intro exI [of _ ?t2] exI [of _ ?p2]) simp
  ultimately show ?thesis
    unfolding Let_def X_def [symmetric]
    using first c10 c11 by (intro exI [of _ ?t1] exI [of _ ?p1]) blast
qed

section \<open>The range of the uniform values\<close>

subsection \<open>In exact arithmetic\<close>

text \<open>Over the real numbers the quotients lie where the comments of the source say, for a
  draw between 0 and \<^verbatim>\<open>RAND_MAX\<close>, and so does the rescaled value.\<close>

lemma RandNext_exact_range:
  assumes "0 \<le> g 0" and "g 0 \<le> RAND_MAX"
  shows "0 \<le> fst (RandNext RAND_MAX g) \<and> fst (RandNext RAND_MAX g) < 1"
  using assms by (simp add: RandNext_def rand_def)

lemma RandNext2_exact_range:
  assumes "0 \<le> g 0" and "g 0 \<le> RAND_MAX"
  shows "0 < fst (RandNext2 RAND_MAX g) \<and> fst (RandNext2 RAND_MAX g) < 1"
  using assms by (simp add: RandNext2_def rand_def)

lemma rescale_exact_range:
  fixes a b r :: real
  assumes "a < b" and "0 \<le> r" and "r < 1"
  shows "a \<le> r * (b - a) + a \<and> r * (b - a) + a < b"
proof -
  have "0 \<le> r * (b - a)" using assms by simp
  moreover have "r * (b - a) < 1 * (b - a)"
    using assms by (intro mult_strict_right_mono) simp_all
  ultimately show ?thesis by simp
qed

subsection \<open>Rounding: to the nearest number, and exact on the numbers of the format\<close>

lemma exponent_bounds:
  assumes "x \<noteq> 0"
  shows "2 powi exponent x \<le> \<bar>x\<bar> \<and> \<bar>x\<bar> < 2 powi (exponent x + 1)"
proof (cases "1 \<le> \<bar>x\<bar>")
  case True
  define n where "n = \<lfloor>\<bar>x\<bar>\<rfloor>"
  have n: "0 < n" using True by (simp add: n_def)
  then have b1: "1 \<le> bitlen n" by (simp add: bitlen_alt_def)
  from bitlen_bounds [OF n] have lo: "2 ^ nat (bitlen n - 1) \<le> n" and hi: "n < 2 ^ nat (bitlen n)"
    by simp_all
  have e: "exponent x = bitlen n - 1"
    using True by (simp add: exponent_def n_def)
  have "real_of_int (2 ^ nat (bitlen n - 1)) \<le> real_of_int n"
    using lo by (simp only: of_int_le_iff)
  also have "\<dots> \<le> \<bar>x\<bar>" by (simp add: n_def)
  finally have 1: "2 powi (bitlen n - 1) \<le> \<bar>x\<bar>"
    using b1 by (simp add: power_int_def)
  from hi have "n + 1 \<le> 2 ^ nat (bitlen n)" by simp
  then have "real_of_int (n + 1) \<le> real_of_int (2 ^ nat (bitlen n))"
    by (simp only: of_int_le_iff)
  moreover have "\<bar>x\<bar> < real_of_int (n + 1)"
    by (simp add: n_def)
  ultimately have 2: "\<bar>x\<bar> < 2 powi (bitlen n - 1 + 1)"
    using b1 by (simp add: power_int_def)
  from 1 2 show ?thesis by (simp only: e)
next
  case False
  define y where "y = 1 / \<bar>x\<bar>"
  define c where "c = \<lceil>y\<rceil>"
  have x: "0 < \<bar>x\<bar>" using assms by simp
  have y: "1 < y" using False x by (simp add: y_def)
  then have c: "0 < c - 1" by (simp add: c_def less_ceiling_iff)
  define L where "L = bitlen (c - 1)"
  from c have L1: "1 \<le> L" by (simp add: L_def bitlen_alt_def)
  from bitlen_bounds [OF c] have lo: "2 ^ nat (L - 1) \<le> c - 1" and hi: "c - 1 < 2 ^ nat L"
    by (simp_all add: L_def)
  have e: "exponent x = - L"
    using False by (simp add: exponent_def L_def c_def y_def)
  have "real_of_int (c - 1) < y"
    unfolding c_def by linarith
  moreover have "real_of_int (2 ^ nat (L - 1)) \<le> real_of_int (c - 1)"
    using lo by (simp only: of_int_le_iff)
  moreover have "real_of_int (2 ^ nat (L - 1)) = 2 ^ nat (L - 1)" by simp
  ultimately have ylo: "2 ^ nat (L - 1) < y" by linarith
  from hi have "c \<le> 2 ^ nat L" by simp
  then have "real_of_int c \<le> real_of_int (2 ^ nat L)"
    by (simp only: of_int_le_iff)
  moreover have "y \<le> real_of_int c" unfolding c_def by linarith
  moreover have "real_of_int (2 ^ nat L) = 2 ^ nat L" by simp
  ultimately have yhi: "y \<le> 2 ^ nat L" by linarith
  have xy: "\<bar>x\<bar> = 1 / y" using x by (simp add: y_def)
  have y0: "0 < y" using y by simp
  have nonneg: "(2::real) powi n = 2 ^ nat n" if "0 \<le> n" for n
    using that by (simp add: power_int_def)
  have "(2::real) powi (- L) = inverse (2 powi L)"
    by (rule power_int_minus)
  also have "\<dots> = 1 / 2 ^ nat L"
    using L1 by (simp only: nonneg inverse_eq_divide)
  finally have pL: "(2::real) powi (- L) = 1 / 2 ^ nat L" .
  have "- L + 1 = - (L - 1)" by simp
  then have "(2::real) powi (- L + 1) = inverse (2 powi (L - 1))"
    by (simp only: power_int_minus)
  also have "\<dots> = 1 / 2 ^ nat (L - 1)"
    using L1 by (simp only: nonneg inverse_eq_divide)
  finally have pL1: "(2::real) powi (- L + 1) = 1 / 2 ^ nat (L - 1)" .
  have "1 / 2 ^ nat L \<le> 1 / y"
    using yhi y0 by (intro divide_left_mono) simp_all
  then have 1: "2 powi (- L) \<le> \<bar>x\<bar>"
    by (simp only: pL xy)
  have "1 / y < 1 / 2 ^ nat (L - 1)"
    using ylo y0 by (intro divide_strict_left_mono) simp_all
  then have 2: "\<bar>x\<bar> < 2 powi (- L + 1)"
    by (simp only: pL1 xy)
  from 1 2 show ?thesis by (simp only: e)
qed

lemma binade_unique:
  fixes a :: real
  assumes "2 powi k \<le> a" and "a < 2 powi (k + 1)" and "2 powi l \<le> a" and "a < 2 powi (l + 1)"
  shows "k = l"
proof (rule ccontr)
  assume "k \<noteq> l"
  then consider "k + 1 \<le> l" | "l + 1 \<le> k" by linarith
  then show False
  proof cases
    case 1
    then have "(2::real) powi (k + 1) \<le> 2 powi l"
      by (intro power_int_increasing) simp_all
    with assms show False by linarith
  next
    case 2
    then have "(2::real) powi (l + 1) \<le> 2 powi k"
      by (intro power_int_increasing) simp_all
    with assms show False by linarith
  qed
qed

lemma exponent_binade:
  assumes "2 powi k \<le> \<bar>x\<bar>" and "\<bar>x\<bar> < 2 powi (k + 1)"
  shows "exponent x = k"
proof -
  have "(0::real) < 2 powi k" by simp
  with assms(1) have "x \<noteq> 0" by linarith
  from exponent_bounds [OF this] assms show ?thesis
    by (intro binade_unique [of "exponent x" "\<bar>x\<bar>" k]) simp_all
qed

lemma floor_log2:
  assumes "2 powi k \<le> \<bar>x\<bar>" and "\<bar>x\<bar> < 2 powi (k + 1)"
  shows "\<lfloor>log 2 \<bar>x\<bar>\<rfloor> = k"
proof -
  have "(0::real) < 2 powi k" by simp
  with assms(1) have pos: "0 < \<bar>x\<bar>" by linarith
  have a: "(2::real) powr real_of_int k = 2 powi k"
    and b: "(2::real) powr real_of_int (k + 1) = 2 powi (k + 1)"
    by (rule powr_real_of_int'; simp)+
  have "(\<lfloor>log 2 \<bar>x\<bar>\<rfloor> = k) = (2 powr real_of_int k \<le> \<bar>x\<bar> \<and> \<bar>x\<bar> < 2 powr real_of_int (k + 1))"
    using pos by (intro floor_log_eq_powr_iff) simp_all
  with assms show ?thesis
    by (simp only: a b simp_thms)
qed

lemma exponent_floor_log: "x \<noteq> 0 \<Longrightarrow> exponent x = \<lfloor>log 2 \<bar>x\<bar>\<rfloor>"
  using exponent_bounds [of x] floor_log2 [of "exponent x" x] by simp

lemma round_to_binade:
  assumes "2 powi k \<le> \<bar>x\<bar>" and "\<bar>x\<bar> < 2 powi (k + 1)"
  shows "round_to prec x =
     of_int (round_half_even (x / 2 powi (k - int prec + 1))) * 2 powi (k - int prec + 1)"
proof -
  have "(0::real) < 2 powi k" by simp
  with assms(1) have "x \<noteq> 0" by linarith
  then show ?thesis
    by (simp only: round_to_def quantum_def exponent_binade [OF assms] if_False)
qed

lemma round_half_even_nearest: "\<bar>of_int (round_half_even q) - q\<bar> \<le> 1 / 2"
  unfolding round_half_even_def Let_def by (auto; linarith)

lemma round_half_even_int: "round_half_even (of_int m) = m"
  by (simp add: round_half_even_def)

lemma quantum_pos: "0 < quantum prec x"
  by (simp add: quantum_def)

lemma round_to_nearest: "\<bar>round_to prec x - x\<bar> \<le> quantum prec x / 2"
proof (cases "x = 0")
  case True
  then show ?thesis using quantum_pos [of prec x] by (simp add: round_to_def)
next
  case False
  define q where "q = quantum prec x"
  define r where "r = real_of_int (round_half_even (x / q))"
  have q: "0 < q" unfolding q_def by (rule quantum_pos)
  have "\<bar>r - x / q\<bar> \<le> 1 / 2"
    unfolding r_def by (rule round_half_even_nearest)
  then have "\<bar>r - x / q\<bar> * q \<le> 1 / 2 * q"
    using q by (intro mult_right_mono) simp_all
  moreover have "r * q - x = (r - x / q) * q"
    using q by (simp add: left_diff_distrib)
  then have "\<bar>r * q - x\<bar> = \<bar>r - x / q\<bar> * q"
    using q by (simp only: abs_mult)
  ultimately have "\<bar>r * q - x\<bar> \<le> q / 2" by simp
  then show ?thesis
    using False by (simp add: round_to_def r_def q_def)
qed

lemma round_to_representable:
  assumes "\<bar>m\<bar> < 2 ^ prec"
  shows "round_to prec (of_int m * 2 powi e) = of_int m * 2 powi e"
proof (cases "m = 0")
  case True
  then show ?thesis by (simp add: round_to_def)
next
  case False
  define k where "k = \<lfloor>log 2 \<bar>real_of_int m\<bar>\<rfloor>"
  have pos: "0 < \<bar>real_of_int m\<bar>" using False by simp
  have a: "(2::real) powr real_of_int k = 2 powi k"
    and b: "(2::real) powr real_of_int (k + 1) = 2 powi (k + 1)"
    by (rule powr_real_of_int'; simp)+
  have "(\<lfloor>log 2 \<bar>real_of_int m\<bar>\<rfloor> = k)
      = (2 powr real_of_int k \<le> \<bar>real_of_int m\<bar> \<and> \<bar>real_of_int m\<bar> < 2 powr real_of_int (k + 1))"
    using pos by (intro floor_log_eq_powr_iff) simp_all
  then have "2 powr real_of_int k \<le> \<bar>real_of_int m\<bar> \<and> \<bar>real_of_int m\<bar> < 2 powr real_of_int (k + 1)"
    using k_def by blast
  then have lo: "2 powi k \<le> \<bar>real_of_int m\<bar>" and hi: "\<bar>real_of_int m\<bar> < 2 powi (k + 1)"
    by (simp_all only: a b)
  have "real_of_int \<bar>m\<bar> < 2 ^ prec"
    using assms by (metis of_int_less_numeral_power_cancel_iff)
  then have "(2::real) powi k < 2 powi (int prec)"
    using lo by simp
  then have kp: "k < int prec"
    using power_int_increasing [of "int prec" k "2::real"] by (cases "k < int prec") simp_all
  have "1 \<le> \<bar>m\<bar>" using False by simp
  then have "1 \<le> real_of_int \<bar>m\<bar>" by (simp only: of_int_1_le_iff)
  then have "(1::real) < 2 powi (k + 1)" using hi by simp
  then have k0: "0 \<le> k"
    using power_int_increasing [of "k + 1" 0 "2::real"] by (cases "0 \<le> k") simp_all
  let ?x = "real_of_int m * 2 powi e"
  have e: "(0::real) < 2 powi e" by simp
  have absx: "\<bar>?x\<bar> = \<bar>real_of_int m\<bar> * 2 powi e"
    by (simp add: abs_mult)
  have lo': "2 powi (k + e) \<le> \<bar>?x\<bar>"
    unfolding absx using lo e by (simp add: power_int_add)
  have hi': "\<bar>?x\<bar> < 2 powi (k + e + 1)"
  proof -
    have "\<bar>real_of_int m\<bar> * 2 powi e < 2 powi (k + 1) * 2 powi e"
      using hi e by (intro mult_strict_right_mono)
    also have "\<dots> = 2 powi (k + e + 1)"
      by (simp add: power_int_add [symmetric] add.commute add.left_commute)
    finally show ?thesis unfolding absx .
  qed
  define d where "d = nat (int prec - 1 - k)"
  have d: "int d = int prec - 1 - k" using kp by (simp add: d_def)
  have split: "(2::real) powi e = 2 powi (int d) * 2 powi (k + e - int prec + 1)"
    by (simp add: power_int_add [symmetric] d)
  have quot: "?x / 2 powi (k + e - int prec + 1) = real_of_int (m * 2 ^ d)"
    by (subst split) simp
  have "real_of_int (m * 2 ^ d) * 2 powi (k + e - int prec + 1)
      = real_of_int m * (2 powi (int d) * 2 powi (k + e - int prec + 1))"
    by simp
  also have "\<dots> = real_of_int m * 2 powi e"
    by (simp only: split [symmetric])
  finally show ?thesis
    unfolding round_to_binade [OF lo' hi'] quot round_half_even_int .
qed

subsection \<open>In binary32\<close>

lemma SampleUniform_binary32_single:
  assumes "unat (inner (FlatTo2D dst)) = 1" and "unat (outer (FlatTo2D dst)) = 1"
  shows "SampleUniform_binary32 RM dst a b p =
     store (cell (FlatTo2D dst) 0 0)
       (binary32 (binary32 (fst (RandNext_binary32 RM (rng p)) * binary32 (b - a)) + a))
       (p\<lparr>rng := snd (RandNext_binary32 RM (rng p))\<rparr>)"
proof -
  let ?mat = "FlatTo2D dst"
  let ?q = "store (cell ?mat 0 0)
       (binary32 (binary32 (fst (RandNext_binary32 RM (rng p)) * binary32 (b - a)) + a))
       (p\<lparr>rng := snd (RandNext_binary32 RM (rng p))\<rparr>)"
  have row1: "SampleUniform_row_binary32 RM ?mat a b 0 (Suc 0) q = q" for q
    by (subst SampleUniform_row_binary32.simps) (simp add: assms)
  have row0: "SampleUniform_row_binary32 RM ?mat a b 0 0 p = ?q"
    by (subst SampleUniform_row_binary32.simps) (simp add: assms row1 split: prod.split)
  have rows1: "SampleUniform_rows_binary32 RM ?mat a b (Suc 0) q = q" for q
    by (subst SampleUniform_rows_binary32.simps) (simp add: assms)
  show ?thesis
    unfolding SampleUniform_binary32_def
    by (subst SampleUniform_rows_binary32.simps) (simp add: assms row0 rows1)
qed

lemma binary32_2147483647: "binary32 2147483647 = 2147483648"
  unfolding binary32_def
  by (subst round_to_binade [where k = 30]) (simp_all add: round_half_even_def)

lemma binary32_2147483649: "binary32 2147483649 = 2147483648"
  unfolding binary32_def
  by (subst round_to_binade [where k = 31]) (simp_all add: round_half_even_def)

lemma binary32_2147483648: "binary32 2147483648 = 2147483648"
  unfolding binary32_def
  by (subst round_to_binade [where k = 31]) (simp_all add: round_half_even_def)

lemma binary32_1: "binary32 1 = 1"
  unfolding binary32_def
  by (subst round_to_binade [where k = 0]) (simp_all add: round_half_even_def)

lemma binary32_32767: "binary32 32767 = 32767"
  unfolding binary32_def
  by (subst round_to_binade [where k = 14]) (simp_all add: round_half_even_def)

lemma binary32_32768: "binary32 32768 = 32768"
  unfolding binary32_def
  by (subst round_to_binade [where k = 15]) (simp_all add: round_half_even_def)

lemma binary32_24576: "binary32 24576 = 24576"
  unfolding binary32_def
  by (subst round_to_binade [where k = 14]) (simp_all add: round_half_even_def)

lemma binary32_3_4: "binary32 (3 / 4) = 3 / 4"
  unfolding binary32_def
  by (subst round_to_binade [where k = "-1"]) (simp_all add: round_half_even_def)

lemma binary32_2: "binary32 2 = 2"
  unfolding binary32_def
  by (subst round_to_binade [where k = 1]) (simp_all add: round_half_even_def)

lemma binary32_3_2: "binary32 (3 / 2) = 3 / 2"
  unfolding binary32_def
  by (subst round_to_binade [where k = 0]) (simp_all add: round_half_even_def)

lemma binary32_above_16777217: "binary32 (33554435 / 2) = 16777218"
  unfolding binary32_def
  by (subst round_to_binade [where k = 24]) (simp_all add: round_half_even_def)

lemma binary32_below_1: "binary32 (2147483647 / 2147483648) = 1"
  unfolding binary32_def
  by (subst round_to_binade [where k = "-1"]) (simp_all add: round_half_even_def)

lemma binary64_2147483649: "binary64 2147483649 = 2147483649"
  unfolding binary64_def
  by (subst round_to_binade [where k = 31]) (simp_all add: round_half_even_def)

lemma binary64_2147483650: "binary64 2147483650 = 2147483650"
  unfolding binary64_def
  by (subst round_to_binade [where k = 31]) (simp_all add: round_half_even_def)

lemma binary64_quotient: "binary64 (2147483649 / 2147483650) = 2147483647 / 2147483648"
  unfolding binary64_def
  by (subst round_to_binade [where k = "-1"]) (simp_all add: round_half_even_def)

lemmas binary32_examples =
  binary32_2147483647
  binary32_2147483649
  binary32_2147483648
  binary32_1
  binary32_32767
  binary32_32768
  binary32_24576
  binary32_3_4
  binary32_2
  binary32_3_2
  binary32_above_16777217
  binary32_below_1

lemmas binary64_examples =
  binary64_2147483649 binary64_2147483650 binary64_quotient

text \<open>With \<^verbatim>\<open>RAND_MAX = 2147483647\<close> (the value of glibc) the 64 largest values of \<^verbatim>\<open>rand()\<close>
  are converted to the \<^verbatim>\<open>float\<close> 2147483648: the numbers of binary32 between \<open>2 powi 30\<close>
  and \<open>2 powi 31\<close> are 128 apart. For these draws \<^verbatim>\<open>RandNext\<close> and \<^verbatim>\<open>RandNext2\<close> return 1.\<close>

lemma binary32_top_draws:
  assumes "2147483584 \<le> r" and "r \<le> 2147483647"
  shows "binary32 (real_of_int r) = 2147483648"
proof -
  have lo: "2 powi 30 \<le> \<bar>real_of_int r\<bar>" and hi: "\<bar>real_of_int r\<bar> < 2 powi (30 + 1)"
    using assms by simp_all
  have fl: "\<lfloor>real_of_int r / 128\<rfloor> = 16777215"
    using assms by (intro floor_unique) simp_all
  have "1 / 2 \<le> real_of_int r / 128 - 16777215"
    using assms by simp
  then have "round_half_even (real_of_int r / 128) = 16777216"
    by (simp add: round_half_even_def fl)
  then show ?thesis
    unfolding binary32_def round_to_binade [OF lo hi] by simp
qed

lemma RandNext_binary32_top_draws:
  assumes "2147483584 \<le> g 0" and "g 0 \<le> 2147483647"
  shows "fst (RandNext_binary32 2147483647 g) = 1"
  by (simp add: RandNext_binary32_def rand_def binary32_top_draws [OF assms] binary32_examples)

lemma RandNext2_binary32_top_draws:
  assumes "2147483584 \<le> g 0" and "g 0 \<le> 2147483647"
  shows "fst (RandNext2_binary32 2147483647 g) = 1"
  by (simp add: RandNext2_binary32_def rand_def binary32_top_draws [OF assms] binary32_examples
      binary64_examples)

text \<open>
  Claim C3: every value that \<^verbatim>\<open>SampleUniform(dst, a, b)\<close> writes lies in \<open>[a, b)\<close>, being
  \<open>r * (b - a) + a\<close> for \<open>r = rand()/(RAND_MAX+1)\<close> in \<open>[0, 1)\<close>; the comment of the function
  says "uniform [a,b)". The code breaks it in \<^verbatim>\<open>float\<close> arithmetic.

  \<^item> \<^verbatim>\<open>RAND_MAX = 2147483647\<close> and \<^verbatim>\<open>rand()\<close> returns 2147483647: the draw is converted to
    2147483648, and \<^verbatim>\<open>RAND_MAX\<close> too, to which adding \<^verbatim>\<open>1.0f\<close> changes nothing; \<^verbatim>\<open>RandNext\<close>
    returns 1, and \<^verbatim>\<open>SampleUniform(dst, 0, 1)\<close> writes \<open>1 = b\<close> into a 1 x 1 tensor.
  \<^item> \<^verbatim>\<open>RAND_MAX = 32767\<close> and \<^verbatim>\<open>rand()\<close> returns 24576: \<^verbatim>\<open>RandNext\<close> returns 3/4; with
    \<open>a = 16777216\<close> and \<open>b = 16777218\<close>, two neighbouring numbers of binary32, the product is
    3/2 and the sum 16777217.5 is rounded to \<open>b\<close>, which \<^verbatim>\<open>SampleUniform(dst, a, b)\<close> writes.
\<close>

theorem SampleUniform_binary32_reaches_b:
  "fst (RandNext_binary32 2147483647 (\<lambda>n. 2147483647)) = 1
   \<and> memory (SampleUniform_binary32 2147483647
        \<lparr>dptr = 0, shape = \<lparr>shape0 = 1 :: 32 word, rest = [], stride = 1\<rparr>\<rparr> 0 1
        \<lparr>memory = (\<lambda>x. 0), rng = (\<lambda>n. 2147483647)\<rparr>) 0 = 1
   \<and> fst (RandNext_binary32 32767 (\<lambda>n. 24576)) = 3 / 4
   \<and> memory (SampleUniform_binary32 32767
        \<lparr>dptr = 0, shape = \<lparr>shape0 = 1 :: 32 word, rest = [], stride = 1\<rparr>\<rparr> 16777216 16777218
        \<lparr>memory = (\<lambda>x. 0), rng = (\<lambda>n. 24576)\<rparr>) 0 = 16777218"
proof -
  let ?dst = "\<lparr>dptr = 0, shape = \<lparr>shape0 = 1 :: 32 word, rest = [], stride = 1\<rparr>\<rparr>"
  have geom: "unat (inner (FlatTo2D ?dst)) = 1" "unat (outer (FlatTo2D ?dst)) = 1"
    "cell (FlatTo2D ?dst) 0 0 = 0"
    by (simp_all add: FlatTo2D_def cell_def)
  have r1: "fst (RandNext_binary32 2147483647 (\<lambda>n. 2147483647)) = 1"
    by (simp add: RandNext_binary32_def rand_def binary32_examples)
  have r2: "fst (RandNext_binary32 32767 (\<lambda>n. 24576)) = 3 / 4"
    by (simp add: RandNext_binary32_def rand_def binary32_examples)
  show ?thesis
    unfolding SampleUniform_binary32_single [OF geom(1,2)] geom(3)
    by (simp add: store_def r1 r2 binary32_examples)
qed

text \<open>
  Claim C4: \<^verbatim>\<open>SampleNormal2D\<close> draws \<open>u\<close> and \<open>v\<close> in the open interval \<open>(0, 1)\<close> as
  \<^verbatim>\<open>(rand()+1)/(RAND_MAX+2)\<close>; the comment of \<^verbatim>\<open>RandNext2\<close> says "uniform in (0,1)". The code
  breaks it in \<^verbatim>\<open>float\<close> arithmetic. With \<^verbatim>\<open>RAND_MAX = 2147483647\<close> and \<^verbatim>\<open>rand()\<close> returning
  2147483647 the draw and \<^verbatim>\<open>RAND_MAX\<close> are both converted to 2147483648; the quotient
  2147483649 / 2147483650 is rounded to \<open>1 - 1 / 2147483648\<close> in \<^verbatim>\<open>double\<close>, and the conversion
  of that to \<^verbatim>\<open>real_t\<close> gives 1: \<^verbatim>\<open>RandNext2\<close> returns 1.
\<close>

theorem RandNext2_binary32_reaches_one:
  "fst (RandNext2_binary32 2147483647 (\<lambda>n. 2147483647)) = 1"
  by (simp add: RandNext2_binary32_def rand_def binary32_examples binary64_examples)

end
